theory Spec2Isabelle
  imports Main "HOL-Library.Word" "HOL-Library.Signed_Division"
begin

unbundle bit_operations_syntax

section \<open>A sharded LRU cache: the data model\<close>

text \<open>
  The development follows the Go package \<open>lru\<close> (the sharded variant): \<open>lru.go\<close> holds the
  cache, its constructor, the traversals and the shard router; the shard itself (an index
  map plus a \<open>container/list\<close> list) is a file of its own; \<open>options.go\<close> holds the two
  construction options.  Locks and atomics are left out: every operation is modelled as
  one sequential step.  A Go panic is a value of type \<open>panic\<close> on the left of a sum.
\<close>

type_synonym byte = "8 word"
type_synonym addr = nat

datatype panic =
    GobEncodePanic          \<comment> \<open>\<open>panic("could not encode type %T as bytes")\<close> in \<open>LRU.shard\<close>\<close>
  | BinaryWritePanic        \<comment> \<open>\<open>panic("could not encode %v as bytes: %v")\<close> in \<open>toBytes\<close>\<close>
  | NilPointerDereference   \<comment> \<open>runtime: dereference of a nil pointer\<close>
  | IndexOutOfRange         \<comment> \<open>runtime: slice index out of range\<close>
  | UnhashableKey           \<comment> \<open>runtime: map access with a key of an uncomparable type\<close>

subsection \<open>Keys\<close>

text \<open>
  A key is an \<open>interface{}\<close>.  The router's type switch tells apart the built-in types
  below; a value of any other dynamic type is a \<open>'u\<close>, whose methods and
  \<open>encoding/gob\<close> encoding are given by an environment, as functions of the value.  A
  pointer key is an address; what it points to is read from the environment's memory
  when the router dereferences it.  A slice key is modelled by its contents at the call.
\<close>

datatype fixed =
    FBool bool
  | FInt8 "8 word" | FUint8 "8 word"
  | FInt16 "16 word" | FUint16 "16 word"
  | FInt32 "32 word" | FUint32 "32 word"
  | FInt64 "64 word" | FUint64 "64 word"

datatype 'u key =
    ByteSlice "byte list"     \<comment> \<open>\<open>[]byte\<close>\<close>
  | Str string                \<comment> \<open>\<open>string\<close>\<close>
  | GoInt "64 word"           \<comment> \<open>\<open>int\<close> (64-bit platform)\<close>
  | IntPtr addr               \<comment> \<open>\<open>*int\<close>\<close>
  | Fixed fixed               \<comment> \<open>\<open>bool, int8, uint8, ..., uint64\<close>\<close>
  | FixedPtr addr             \<comment> \<open>\<open>*bool, *int8, ..., *uint64\<close>\<close>
  | FixedSlice "fixed list"   \<comment> \<open>\<open>[]bool, []int8, []int16, ..., []uint64\<close>\<close>
  | User 'u                   \<comment> \<open>any other dynamic type\<close>

record 'u env =
  Bytes_method :: "'u \<Rightarrow> byte list option"
    \<comment> \<open>\<open>v.Bytes()\<close> when the type implements \<open>byter\<close>, \<open>None\<close> when it does not\<close>
  String_method :: "'u \<Rightarrow> string option"
    \<comment> \<open>\<open>v.String()\<close> when the type implements \<open>stringer\<close>\<close>
  gob_Encode :: "'u \<Rightarrow> byte list option"
    \<comment> \<open>what \<open>gob.NewEncoder(&buf).Encode(v)\<close> leaves in \<open>buf\<close>; \<open>None\<close> when it returns an error\<close>
  comparable :: "'u \<Rightarrow> bool"
    \<comment> \<open>whether the value's type is comparable, so that the value may be a map key\<close>
  int_at :: "addr \<rightharpoonup> 64 word"
    \<comment> \<open>memory: the \<open>int\<close> an \<open>*int\<close> points to; \<open>None\<close> for the nil pointer\<close>
  fixed_at :: "addr \<rightharpoonup> fixed"
    \<comment> \<open>memory: the scalar a \<open>*bool, *int8, ...\<close> points to; \<open>None\<close> for the nil pointer\<close>

text \<open>Go's map access panics when the key's dynamic type is a slice (or contains one).\<close>

fun hashable :: "'u env \<Rightarrow> 'u key \<Rightarrow> bool" where
  "hashable E (ByteSlice bs) = False"
| "hashable E (FixedSlice fs) = False"
| "hashable E (User u) = comparable E u"
| "hashable E k = True"

subsection \<open>Key encodings\<close>

text \<open>\<open>var il = strconv.IntSize / 8\<close>, on a 64-bit platform.\<close>

definition il :: nat where
  "il = 64 div 8"

text \<open>
  \<open>intBytes\<close>: \<open>i >> n\<close> on a signed \<open>int\<close> is the arithmetic shift, \<open>byte(...)\<close> keeps the low
  eight bits.
\<close>

definition intBytes :: "64 word \<Rightarrow> byte list" where
  "intBytes i =
     (let b = replicate il (0 :: byte);
          b = b[0 := ucast i];
          b = b[1 := ucast (signed_drop_bit 8 i)];
          b = b[2 := ucast (signed_drop_bit 16 i)];
          b = b[3 := ucast (signed_drop_bit 24 i)]
      in if il = 8
         then (let b = b[4 := ucast (signed_drop_bit 32 i)];
                   b = b[5 := ucast (signed_drop_bit 40 i)];
                   b = b[6 := ucast (signed_drop_bit 48 i)];
                   b = b[7 := ucast (signed_drop_bit 56 i)]
               in b)
         else b)"

text \<open>
  \<open>binary.Write(&buf, binary.LittleEndian, v)\<close> of the standard library, for the types the
  router hands to \<open>toBytes\<close>: a scalar of \<open>n\<close> bytes is written low byte first, a bool as
  one byte, a slice element by element.
\<close>

definition le_bytes :: "nat \<Rightarrow> 'a::len word \<Rightarrow> byte list" where
  "le_bytes n w = map (\<lambda>j. ucast (drop_bit (8 * j) w)) [0..<n]"

fun fixed_bytes :: "fixed \<Rightarrow> byte list" where
  "fixed_bytes (FBool b) = [if b then 1 else 0]"
| "fixed_bytes (FInt8 w) = le_bytes 1 w"
| "fixed_bytes (FUint8 w) = le_bytes 1 w"
| "fixed_bytes (FInt16 w) = le_bytes 2 w"
| "fixed_bytes (FUint16 w) = le_bytes 2 w"
| "fixed_bytes (FInt32 w) = le_bytes 4 w"
| "fixed_bytes (FUint32 w) = le_bytes 4 w"
| "fixed_bytes (FInt64 w) = le_bytes 8 w"
| "fixed_bytes (FUint64 w) = le_bytes 8 w"

text \<open>
  What \<open>toBytes\<close> is called with: a scalar, a pointer to one (\<open>None\<close> is the nil pointer) or
  a slice of them.  For these types \<open>binary.Write\<close> takes its fast path, which
  dereferences a pointer without a check and returns no error; \<open>Inr None\<close> stands for
  a returned error, on which \<open>toBytes\<close> panics.
\<close>

datatype toBytes_arg = Scalar fixed | Pointer "fixed option" | Slice "fixed list"

fun binary_Write :: "toBytes_arg \<Rightarrow> panic + byte list option" where
  "binary_Write (Scalar x) = Inr (Some (fixed_bytes x))"
| "binary_Write (Pointer None) = Inl NilPointerDereference"
| "binary_Write (Pointer (Some x)) = Inr (Some (fixed_bytes x))"
| "binary_Write (Slice xs) = Inr (Some (concat (map fixed_bytes xs)))"

definition toBytes :: "toBytes_arg \<Rightarrow> panic + byte list" where
  "toBytes v =
     (case binary_Write v of
        Inl p \<Rightarrow> Inl p
      | Inr None \<Rightarrow> Inl BinaryWritePanic
      | Inr (Some buf) \<Rightarrow> Inr buf)"

text \<open>
  \<open>fnv.New32a()\<close>, \<open>h.Write(bs)\<close>, \<open>h.Sum32()\<close> of the standard library: FNV-1a on 32 bits
  (offset basis 2166136261, prime 16777619).
\<close>

definition fnv32a :: "byte list \<Rightarrow> 32 word" where
  "fnv32a bs = foldl (\<lambda>h b. (h XOR ucast b) * 16777619) 2166136261 bs"

text \<open>
  The type switch of \<open>LRU.shard\<close>: the bytes written to the hash, or the panic raised on
  the way.  A value of another type is tried as \<open>byter\<close>, then as \<open>stringer\<close>, then handed
  to gob: the built-in types of the other cases have no methods, so the order of the
  cases is kept.
\<close>

fun key_bytes :: "'u env \<Rightarrow> 'u key \<Rightarrow> panic + byte list" where
  "key_bytes E (ByteSlice v) = Inr v"
| "key_bytes E (Str v) = Inr (map of_char v)"
| "key_bytes E (GoInt v) = Inr (intBytes v)"
| "key_bytes E (IntPtr p) =
     (case int_at E p of None \<Rightarrow> Inl NilPointerDereference | Some v \<Rightarrow> Inr (intBytes v))"
| "key_bytes E (Fixed x) = toBytes (Scalar x)"
| "key_bytes E (FixedPtr p) = toBytes (Pointer (fixed_at E p))"
| "key_bytes E (FixedSlice xs) = toBytes (Slice xs)"
| "key_bytes E (User u) =
     (case Bytes_method E u of
        Some bs \<Rightarrow> Inr bs
      | None \<Rightarrow>
         (case String_method E u of
            Some s \<Rightarrow> Inr (map of_char s)
          | None \<Rightarrow>
             (case gob_Encode E u of
                None \<Rightarrow> Inl GobEncodePanic
              | Some bs \<Rightarrow> Inr bs)))"

section \<open>The shard\<close>

text \<open>
  A shard owns a \<open>container/list\<close> list of elements and an index from keys to elements.
  An element (\<open>*list.Element\<close>) is an address; \<open>elems\<close> is the memory holding the entry each
  element's \<open>Value\<close> points to.  The list is the sequence of its elements, front first.
  \<open>brk\<close> belongs to the model only: it is the next address the allocator hands out when
  \<open>PushFront\<close> makes a new element.  An address without an entry stands for a dangling
  element; using it is a panic, which no well-formed shard reaches.
\<close>

record ('u, 'v) entry =
  key :: "'u key"
  val :: 'v

record ('u, 'v) shard =
  cap :: int
  len :: "32 word"                       \<comment> \<open>\<open>int32\<close>, updated with \<open>atomic.AddInt32\<close>\<close>
  idx :: "'u key \<rightharpoonup> addr"                \<comment> \<open>\<open>map[interface{}]*list.Element\<close>\<close>
  lst :: "addr list"                     \<comment> \<open>the field \<open>l *list.List\<close>\<close>
  elems :: "addr \<rightharpoonup> ('u, 'v) entry"
  brk :: addr

subsection \<open>The operations of \<open>container/list\<close> the shard uses\<close>

text \<open>\<open>MoveToFront\<close> and \<open>Remove\<close> do nothing for an element that is not in the list.\<close>

definition MoveToFront :: "addr list \<Rightarrow> addr \<Rightarrow> addr list" where
  "MoveToFront xs e = (if e \<in> set xs then e # remove1 e xs else xs)"

definition list_Remove :: "addr list \<Rightarrow> addr \<Rightarrow> addr list" where
  "list_Remove xs e = (if e \<in> set xs then remove1 e xs else xs)"

definition Back :: "addr list \<Rightarrow> addr option" where
  "Back xs = (case xs of [] \<Rightarrow> None | _ \<Rightarrow> Some (last xs))"

definition Front :: "addr list \<Rightarrow> addr option" where
  "Front xs = (case xs of [] \<Rightarrow> None | e # _ \<Rightarrow> Some e)"

subsection \<open>Shard operations\<close>

definition newShard :: "int \<Rightarrow> ('u, 'v) shard" where
  "newShard c = \<lparr>cap = c, len = 0, idx = Map.empty, lst = [], elems = Map.empty, brk = 0\<rparr>"

definition shard_Len :: "('u, 'v) shard \<Rightarrow> int" where
  "shard_Len s = sint (len s)"

text \<open>
  \<open>removeElement\<close>: reads the entry, unlinks the element, deletes the key from the index,
  decrements the count, returns the entry's key and value.
\<close>

definition removeElement ::
  "'u env \<Rightarrow> ('u, 'v) shard \<Rightarrow> addr \<Rightarrow> panic + (('u key option \<times> 'v option) \<times> ('u, 'v) shard)" where
  "removeElement E s le =
     (case elems s le of
        None \<Rightarrow> Inl NilPointerDereference
      | Some e \<Rightarrow>
          (let s1 = s\<lparr>lst := list_Remove (lst s) le\<rparr> in
           if \<not> hashable E (key e) then Inl UnhashableKey
           else (let s2 = s1\<lparr>idx := (idx s1)(key e := None)\<rparr>;
                     s3 = s2\<lparr>len := len s2 - 1\<rparr>
                 in Inr ((Some (key e), Some (val e)), s3))))"

definition removeOldest ::
  "'u env \<Rightarrow> ('u, 'v) shard \<Rightarrow> panic + (('u key option \<times> 'v option) \<times> ('u, 'v) shard)" where
  "removeOldest E s =
     (case Back (lst s) of
        None \<Rightarrow> Inr ((None, None), s)
      | Some le \<Rightarrow> removeElement E s le)"

text \<open>
  \<open>add\<close>: an existing key has its entry's value overwritten and its element moved to the
  front; a new key gets a new element at the front, is entered in the index, the count
  is incremented, and the oldest element is removed when the shard is bounded and over
  its capacity.
\<close>

definition add :: "'u env \<Rightarrow> ('u, 'v) shard \<Rightarrow> 'u key \<Rightarrow> 'v \<Rightarrow> panic + ('u, 'v) shard" where
  "add E s k v =
     (if \<not> hashable E k then Inl UnhashableKey
      else case idx s k of
        Some le \<Rightarrow>
          (case elems s le of
             None \<Rightarrow> Inl NilPointerDereference
           | Some e \<Rightarrow>
               (let s1 = s\<lparr>elems := (elems s)(le \<mapsto> e\<lparr>val := v\<rparr>)\<rparr>
                in Inr (s1\<lparr>lst := MoveToFront (lst s1) le\<rparr>)))
      | None \<Rightarrow>
          (let le = brk s;
               s1 = s\<lparr>lst := le # lst s, elems := (elems s)(le \<mapsto> \<lparr>key = k, val = v\<rparr>),
                      brk := Suc le\<rparr>;
               s2 = s1\<lparr>idx := (idx s1)(k \<mapsto> le)\<rparr>;
               s3 = s2\<lparr>len := len s2 + 1\<rparr>
           in if 0 < cap s3 \<and> cap s3 < shard_Len s3
              then (case removeOldest E s3 of Inl p \<Rightarrow> Inl p | Inr (r, s4) \<Rightarrow> Inr s4)
              else Inr s3))"

definition front :: "('u, 'v) shard \<Rightarrow> panic + ('u key option \<times> 'v option)" where
  "front s =
     (if shard_Len s = 0 then Inr (None, None)
      else case Front (lst s) of
        None \<Rightarrow> Inl NilPointerDereference
      | Some le \<Rightarrow>
          (case elems s le of
             None \<Rightarrow> Inl NilPointerDereference
           | Some e \<Rightarrow> Inr (Some (key e), Some (val e))))"

definition get ::
  "'u env \<Rightarrow> ('u, 'v) shard \<Rightarrow> 'u key \<Rightarrow> panic + (('v option \<times> bool) \<times> ('u, 'v) shard)" where
  "get E s k =
     (if \<not> hashable E k then Inl UnhashableKey
      else case idx s k of
        Some le \<Rightarrow>
          (let s1 = s\<lparr>lst := MoveToFront (lst s) le\<rparr> in
           case elems s1 le of
             None \<Rightarrow> Inl NilPointerDereference
           | Some e \<Rightarrow> Inr ((Some (val e), True), s1))
      | None \<Rightarrow> Inr ((None, False), s))"

definition removeKey :: "'u env \<Rightarrow> ('u, 'v) shard \<Rightarrow> 'u key \<Rightarrow> panic + ('u, 'v) shard" where
  "removeKey E s k =
     (if \<not> hashable E k then Inl UnhashableKey
      else case idx s k of
        None \<Rightarrow> Inr s
      | Some le \<Rightarrow>
          (case removeElement E s le of Inl p \<Rightarrow> Inl p | Inr (r, s') \<Rightarrow> Inr s'))"

section \<open>The cache\<close>

text \<open>
  \<open>shards\<close> is a slice of shard pointers: \<open>None\<close> is the nil slice of the zero value.  Each
  shard is pointed to from its own slot only, so the slice is modelled as the list of
  the shards themselves and a shard mutated in place is written back to its slot.
  Go's \<open>int\<close> fields are unbounded integers here: the only arithmetic on them is the
  division in \<open>New\<close> and \<open>nshards - 1\<close> in the router, neither of which can overflow.
\<close>

record ('u, 'v) LRU =
  cap :: int
  nshards :: int
  shards :: "('u, 'v) shard list option"

datatype lru_option = withCapacity int | withShards int

fun apply_option :: "lru_option \<Rightarrow> ('u, 'v) LRU \<Rightarrow> ('u, 'v) LRU" where
  "apply_option (withCapacity c) l = l\<lparr>cap := c\<rparr>"
| "apply_option (withShards n) l = l\<lparr>nshards := n\<rparr>"

text \<open>\<open>New\<close>; Go's \<open>/\<close> on integers truncates towards zero, which is \<open>sdiv\<close>.\<close>

definition New :: "lru_option list \<Rightarrow> ('u, 'v) LRU" where
  "New opts =
     (let l = \<lparr>cap = 0, nshards = 0, shards = None\<rparr>;
          l = foldl (\<lambda>l opt. apply_option opt l) l opts;
          l = (if nshards l < 1 then l\<lparr>nshards := 1\<rparr> else l);
          c = cap l sdiv nshards l
      in l\<lparr>shards := Some (map (\<lambda>i. newShard c) [0..<nat (nshards l)])\<rparr>)"

definition lazyInit :: "('u, 'v) LRU \<Rightarrow> ('u, 'v) LRU" where
  "lazyInit l =
     (if shards l = None then l\<lparr>nshards := 1, shards := Some [newShard (cap l)]\<rparr> else l)"

text \<open>The slice as a list; indexing the nil slice panics like indexing an empty one.\<close>

definition the_shards :: "('u, 'v) LRU \<Rightarrow> ('u, 'v) shard list" where
  "the_shards l = (case shards l of None \<Rightarrow> [] | Some ss \<Rightarrow> ss)"

definition set_shard :: "('u, 'v) LRU \<Rightarrow> nat \<Rightarrow> ('u, 'v) shard \<Rightarrow> ('u, 'v) LRU" where
  "set_shard l i s = l\<lparr>shards := Some ((the_shards l)[i := s])\<rparr>"

text \<open>\<open>Len\<close>: the loop \<open>for i := 0; i < l.nshards; i++ { len += l.shards[i].Len() }\<close>.\<close>

function Len_loop :: "('u, 'v) shard list \<Rightarrow> int \<Rightarrow> int \<Rightarrow> int \<Rightarrow> panic + int" where
  "Len_loop ss n i acc =
     (if i < n
      then (if 0 \<le> i \<and> nat i < length ss
            then Len_loop ss n (i + 1) (acc + shard_Len (ss ! nat i))
            else Inl IndexOutOfRange)
      else Inr acc)"
  by pat_completeness auto
termination
  by (relation "measure (\<lambda>(ss, n, i, acc). nat (n - i))") auto

declare Len_loop.simps [simp del]

definition Len :: "('u, 'v) LRU \<Rightarrow> panic + (int \<times> ('u, 'v) LRU)" where
  "Len l =
     (let l1 = lazyInit l in
      case Len_loop (the_shards l1) (nshards l1) 0 0 of
        Inl p \<Rightarrow> Inl p
      | Inr n \<Rightarrow> Inr (n, l1))"

text \<open>
  \<open>LRU.shard\<close>: the shard a key is routed to, as its index in \<open>shards\<close>.
  \<open>uint32(l.nshards-1)\<close> keeps the low 32 bits.
\<close>

definition LRU_shard :: "'u env \<Rightarrow> ('u, 'v) LRU \<Rightarrow> 'u key \<Rightarrow> panic + nat" where
  "LRU_shard E l k =
     (case key_bytes E k of
        Inl p \<Rightarrow> Inl p
      | Inr bs \<Rightarrow>
          (let i = unat (fnv32a bs AND word_of_int (nshards l - 1)) in
           if i < length (the_shards l) then Inr i else Inl IndexOutOfRange))"

definition Add :: "'u env \<Rightarrow> ('u, 'v) LRU \<Rightarrow> 'u key \<Rightarrow> 'v \<Rightarrow> panic + ('u, 'v) LRU" where
  "Add E l k v =
     (let l1 = lazyInit l in
      case LRU_shard E l1 k of
        Inl p \<Rightarrow> Inl p
      | Inr i \<Rightarrow>
          (case add E (the_shards l1 ! i) k v of
             Inl p \<Rightarrow> Inl p
           | Inr s' \<Rightarrow> Inr (set_shard l1 i s')))"

definition PeekFront ::
  "'u env \<Rightarrow> ('u, 'v) LRU \<Rightarrow> panic + (('u key option \<times> 'v option) \<times> ('u, 'v) LRU)" where
  "PeekFront E l =
     (let l1 = lazyInit l in
      case LRU_shard E l1 (GoInt 1) of
        Inl p \<Rightarrow> Inl p
      | Inr i \<Rightarrow>
          (case front (the_shards l1 ! i) of
             Inl p \<Rightarrow> Inl p
           | Inr r \<Rightarrow> Inr (r, l1)))"

definition Get ::
  "'u env \<Rightarrow> ('u, 'v) LRU \<Rightarrow> 'u key \<Rightarrow> panic + (('v option \<times> bool) \<times> ('u, 'v) LRU)" where
  "Get E l k =
     (case LRU_shard E l k of
        Inl p \<Rightarrow> Inl p
      | Inr i \<Rightarrow>
          (case get E (the_shards l ! i) k of
             Inl p \<Rightarrow> Inl p
           | Inr (r, s') \<Rightarrow> Inr (r, set_shard l i s')))"

definition Remove :: "'u env \<Rightarrow> ('u, 'v) LRU \<Rightarrow> 'u key \<Rightarrow> panic + ('u, 'v) LRU" where
  "Remove E l k =
     (case LRU_shard E l k of
        Inl p \<Rightarrow> Inl p
      | Inr i \<Rightarrow>
          (case removeKey E (the_shards l ! i) k of
             Inl p \<Rightarrow> Inl p
           | Inr s' \<Rightarrow> Inr (set_shard l i s')))"

subsection \<open>Traversals\<close>

text \<open>
  The visit function is a Go closure: it is modelled with the state it works on passed
  through.  The inner \<open>for\<close> walks one shard's list from an element on; both of its exits
  are \<open>break L\<close>, where \<open>L\<close> labels the loop over the shards.  \<open>loop_exit\<close> says how the inner
  loop was left; the loop over the shards goes on to its next iteration only for
  \<open>NextShard\<close>, which the inner loop of the source never produces.
\<close>

datatype loop_exit = BreakL | NextShard

fun Traverse_elems ::
  "('u key \<Rightarrow> 'v \<Rightarrow> 'st \<Rightarrow> bool \<times> 'st) \<Rightarrow> (addr \<rightharpoonup> ('u, 'v) entry) \<Rightarrow> addr list \<Rightarrow> 'st
     \<Rightarrow> panic + (loop_exit \<times> 'st)" where
  "Traverse_elems fn es [] st = Inr (BreakL, st)"
| "Traverse_elems fn es (le # rest) st =
     (case es le of
        None \<Rightarrow> Inl NilPointerDereference
      | Some e \<Rightarrow>
          (case fn (key e) (val e) st of
             (go_on, st') \<Rightarrow>
               if \<not> go_on then Inr (BreakL, st') else Traverse_elems fn es rest st'))"

fun Traverse_shards ::
  "bool \<Rightarrow> ('u key \<Rightarrow> 'v \<Rightarrow> 'st \<Rightarrow> bool \<times> 'st) \<Rightarrow> ('u, 'v) shard list \<Rightarrow> 'st \<Rightarrow> panic + 'st" where
  "Traverse_shards reverse fn [] st = Inr st"
| "Traverse_shards reverse fn (s # ss) st =
     (case Traverse_elems fn (elems s) (if reverse then rev (lst s) else lst s) st of
        Inl p \<Rightarrow> Inl p
      | Inr (BreakL, st') \<Rightarrow> Inr st'
      | Inr (NextShard, st') \<Rightarrow> Traverse_shards reverse fn ss st')"

definition Traverse ::
  "('u, 'v) LRU \<Rightarrow> ('u key \<Rightarrow> 'v \<Rightarrow> 'st \<Rightarrow> bool \<times> 'st) \<Rightarrow> 'st \<Rightarrow> panic + 'st" where
  "Traverse l fn st = Traverse_shards False fn (the_shards l) st"

definition TraverseReverse ::
  "('u, 'v) LRU \<Rightarrow> ('u key \<Rightarrow> 'v \<Rightarrow> 'st \<Rightarrow> bool \<times> 'st) \<Rightarrow> 'st \<Rightarrow> panic + 'st" where
  "TraverseReverse l fn st = Traverse_shards True fn (the_shards l) st"

text \<open>A visit function that never stops and records what it is called with.\<close>

definition record_all :: "'u key \<Rightarrow> 'v \<Rightarrow> ('u key \<times> 'v) list \<Rightarrow> bool \<times> ('u key \<times> 'v) list" where
  "record_all k v seen = (True, seen @ [(k, v)])"

section \<open>Well-formed states and what is observed of them\<close>

text \<open>
  The shard's order, as the sequence of the entries its list holds, most recently used
  first.
\<close>

definition entries :: "('u, 'v) shard \<Rightarrow> ('u, 'v) entry list" where
  "entries s = List.map_filter (elems s) (lst s)"

text \<open>A key is present in the cache when some shard's index holds it.\<close>

definition present :: "('u, 'v) LRU \<Rightarrow> 'u key \<Rightarrow> bool" where
  "present l k \<longleftrightarrow> (\<exists>s \<in> set (the_shards l). idx s k \<noteq> None)"

text \<open>
  The shard invariant of the data model: the index and the list are consistent (every
  indexed key points to one live element holding an entry for that key, every element
  of the list is indexed under its entry's key), the list has no element twice, the
  count is the length of the list, and every key of the index is a legal map key.
\<close>

definition shard_inv :: "'u env \<Rightarrow> ('u, 'v) shard \<Rightarrow> bool" where
  "shard_inv E s \<longleftrightarrow>
     distinct (lst s) \<and>
     (\<forall>k a. idx s k = Some a \<longrightarrow>
        a \<in> set (lst s) \<and> hashable E k \<and> (\<exists>e. elems s a = Some e \<and> key e = k)) \<and>
     (\<forall>a \<in> set (lst s). a < brk s \<and> (\<exists>e. elems s a = Some e \<and> idx s (key e) = Some a)) \<and>
     sint (len s) = int (length (lst s))"

text \<open>
  A cache is well formed when it has been initialised, \<open>nshards\<close> is the number of its
  shards and every shard satisfies its invariant.
\<close>

definition well_formed :: "'u env \<Rightarrow> ('u, 'v) LRU \<Rightarrow> bool" where
  "well_formed E l \<longleftrightarrow>
     shards l \<noteq> None \<and> the_shards l \<noteq> [] \<and> nshards l = int (length (the_shards l)) \<and>
     (\<forall>i < length (the_shards l). shard_inv E (the_shards l ! i))"

text \<open>
  A key is held where it is routed when every shard whose index holds the key is the
  shard the router selects for the key, under the environment of the call.
\<close>

definition routed :: "'u env \<Rightarrow> ('u, 'v) LRU \<Rightarrow> 'u key \<Rightarrow> bool" where
  "routed E l k \<longleftrightarrow>
     (\<forall>i < length (the_shards l). idx (the_shards l ! i) k \<noteq> None \<longrightarrow> LRU_shard E l k = Inr i)"

text \<open>
  The invariant of the cache under one environment: it is well formed and every key
  is held where it is routed.
\<close>

definition LRU_inv :: "'u env \<Rightarrow> ('u, 'v) LRU \<Rightarrow> bool" where
  "LRU_inv E l \<longleftrightarrow>
     shards l \<noteq> None \<and> the_shards l \<noteq> [] \<and> nshards l = int (length (the_shards l)) \<and>
     (\<forall>i < length (the_shards l).
        shard_inv E (the_shards l ! i) \<and>
        (\<forall>k a. idx (the_shards l ! i) k = Some a \<longrightarrow> LRU_shard E l k = Inr i))"

text \<open>One public operation that returns, under any environment.\<close>

inductive op_step :: "('u, 'v) LRU \<Rightarrow> ('u, 'v) LRU \<Rightarrow> bool" where
  step_Add: "Add E l k v = Inr l' \<Longrightarrow> op_step l l'"
| step_Get: "Get E l k = Inr (r, l') \<Longrightarrow> op_step l l'"
| step_Remove: "Remove E l k = Inr l' \<Longrightarrow> op_step l l'"
| step_PeekFront: "PeekFront E l = Inr (kv, l') \<Longrightarrow> op_step l l'"
| step_Len: "Len l = Inr (n, l') \<Longrightarrow> op_step l l'"

text \<open>The options as \<open>New\<close> has applied them, before it clamps the shard count.\<close>

definition configured :: "lru_option list \<Rightarrow> ('u, 'v) LRU" where
  "configured opts =
     foldl (\<lambda>l opt. apply_option opt l) \<lparr>cap = 0, nshards = 0, shards = None\<rparr> opts"

text \<open>The zero value of the \<open>LRU\<close> struct.\<close>

definition zero_LRU :: "('u, 'v) LRU" where
  "zero_LRU = \<lparr>cap = 0, nshards = 0, shards = None\<rparr>"

text \<open>An environment with no user methods, a failing gob encoder and an empty memory.\<close>

definition plain_env :: "'u env" where
  "plain_env =
     \<lparr>Bytes_method = (\<lambda>u. None), String_method = (\<lambda>u. None), gob_Encode = (\<lambda>u. None),
      comparable = (\<lambda>u. True), int_at = Map.empty, fixed_at = Map.empty\<rparr>"

text \<open>
  A cache of two shards holding \<open>"a"\<close> in shard 0 and \<open>"b"\<close> in shard 1: what
  \<open>New(withShards(2))\<close>, \<open>Add("a", 1)\<close>, \<open>Add("b", 2)\<close> build.
\<close>

definition two_shards_ab :: "(unit, nat) LRU" where
  "two_shards_ab =
     \<lparr>cap = 0, nshards = 2,
      shards = Some
        [\<lparr>shard.cap = 0, len = 1, idx = [Str ''a'' \<mapsto> 0], lst = [0],
          elems = [0 \<mapsto> \<lparr>key = Str ''a'', val = 1\<rparr>], brk = 1\<rparr>,
         \<lparr>shard.cap = 0, len = 1, idx = [Str ''b'' \<mapsto> 0], lst = [0],
          elems = [0 \<mapsto> \<lparr>key = Str ''b'', val = 2\<rparr>], brk = 1\<rparr>]\<rparr>"

text \<open>
  A cache of one shard of capacity 3 holding \<open>"a"\<close>, \<open>"b"\<close> and \<open>"c"\<close>, added in this order:
  what \<open>New(withCapacity(3))\<close>, \<open>Add("a", 1)\<close>, \<open>Add("b", 2)\<close>, \<open>Add("c", 3)\<close> build.
\<close>

definition one_shard_abc :: "(unit, nat) LRU" where
  "one_shard_abc =
     \<lparr>cap = 3, nshards = 1,
      shards = Some
        [\<lparr>shard.cap = 3, len = 3,
          idx = [Str ''a'' \<mapsto> 0, Str ''b'' \<mapsto> 1, Str ''c'' \<mapsto> 2], lst = [2, 1, 0],
          elems = [0 \<mapsto> \<lparr>key = Str ''a'', val = 1\<rparr>, 1 \<mapsto> \<lparr>key = Str ''b'', val = 2\<rparr>,
                   2 \<mapsto> \<lparr>key = Str ''c'', val = 3\<rparr>],
          brk = 3\<rparr>]\<rparr>"






text \<open>
  Two environments give the same view of a key when what the router reads of the key
  is the same in both: what a pointer key points to, and for a key of a user type what
  its \<open>Bytes\<close> and \<open>String\<close> methods and the gob encoder return.  The router reads nothing
  of the environment for the other keys.
\<close>

fun same_view :: "'u env \<Rightarrow> 'u env \<Rightarrow> 'u key \<Rightarrow> bool" where
  "same_view E E' (IntPtr p) = (int_at E' p = int_at E p)"
| "same_view E E' (FixedPtr p) = (fixed_at E' p = fixed_at E p)"
| "same_view E E' (User u) =
     (Bytes_method E' u = Bytes_method E u \<and> String_method E' u = String_method E u
      \<and> gob_Encode E' u = gob_Encode E u)"
| "same_view E E' k = True"

text \<open>
  The caches built by \<open>New\<close>, \<open>Add\<close>, \<open>Get\<close> and \<open>Remove\<close> under one environment, no shard
  growing beyond what its 32-bit count can hold.
\<close>

inductive built :: "'u env \<Rightarrow> ('u, 'v) LRU \<Rightarrow> bool" for E :: "'u env" where
  built_New: "built E (New opts)"
| built_Add:
    "built E l \<Longrightarrow> Add E l k v = Inr l'
       \<Longrightarrow> \<forall>s \<in> set (the_shards l). int (length (lst s)) + 1 < 2 ^ 31 \<Longrightarrow> built E l'"
| built_Get: "built E l \<Longrightarrow> Get E l k = Inr (r, l') \<Longrightarrow> built E l'"
| built_Remove: "built E l \<Longrightarrow> Remove E l k = Inr l' \<Longrightarrow> built E l'"

text \<open>
  The caches reached from \<open>New\<close> by \<open>Add\<close>, \<open>Get\<close> and \<open>Remove\<close> under environments that may
  differ from call to call in their memory and in what the methods of a key return
  (they agree on which user types are comparable, which is fixed by the types).
\<close>

inductive reached :: "'u env \<Rightarrow> ('u, 'v) LRU \<Rightarrow> bool" for E :: "'u env" where
  reached_New: "reached E (New opts)"
| reached_Add:
    "reached E l \<Longrightarrow> comparable E' = comparable E \<Longrightarrow> Add E' l k v = Inr l'
       \<Longrightarrow> \<forall>s \<in> set (the_shards l). int (length (lst s)) + 1 < 2 ^ 31 \<Longrightarrow> reached E l'"
| reached_Get:
    "reached E l \<Longrightarrow> comparable E' = comparable E \<Longrightarrow> Get E' l k = Inr (r, l') \<Longrightarrow> reached E l'"
| reached_Remove:
    "reached E l \<Longrightarrow> comparable E' = comparable E \<Longrightarrow> Remove E' l k = Inr l' \<Longrightarrow> reached E l'"

section \<open>Shards\<close>

subsection \<open>Lists of elements\<close>

lemma map_filter_all_Some:
  "\<forall>b \<in> set xs. m b \<noteq> None \<Longrightarrow> List.map_filter m xs = map (\<lambda>b. the (m b)) xs"
  by (induction xs) (auto simp: List.map_filter_simps)

lemma remove1_last_distinct:
  "distinct xs \<Longrightarrow> xs \<noteq> [] \<Longrightarrow> remove1 (last xs) xs = butlast xs"
  by (induction xs) auto

lemma filter_key_remove1:
  assumes "distinct xs" and "\<forall>b \<in> set xs. g (h b) = k \<longleftrightarrow> b = a"
  shows "filter (\<lambda>e. g e \<noteq> k) (map h xs) = map h (remove1 a xs)"
  using assms by (induction xs) (auto simp: filter_id_conv remove1_idem)

lemma filter_last_key:
  "distinct (map f es) \<Longrightarrow> es \<noteq> [] \<Longrightarrow> filter (\<lambda>e. f e \<noteq> f (last es)) es = butlast es"
  by (induction es) (auto simp: filter_id_conv)


subsection \<open>What the shard invariant gives\<close>

lemma inv_idx_Some:
  assumes "shard_inv E s" and "idx s k = Some a"
  shows "a \<in> set (lst s)" and "hashable E k" and "\<exists>v. elems s a = Some \<lparr>key = k, val = v\<rparr>"
proof -
  from assms obtain e where e: "a \<in> set (lst s)" "hashable E k" "elems s a = Some e" "key e = k"
    unfolding shard_inv_def by blast
  show "a \<in> set (lst s)" "hashable E k" by (fact e)+
  have "e = \<lparr>key = k, val = val e\<rparr>" using e(4) by simp
  then show "\<exists>v. elems s a = Some \<lparr>key = k, val = v\<rparr>" using e(3) by metis
qed

lemma inv_lst:
  assumes "shard_inv E s" and "b \<in> set (lst s)"
  shows "b < brk s" and "\<exists>e. elems s b = Some e \<and> idx s (key e) = Some b"
  using assms unfolding shard_inv_def by blast+

lemma inv_distinct: "shard_inv E s \<Longrightarrow> distinct (lst s)"
  unfolding shard_inv_def by blast

lemma inv_len: "shard_inv E s \<Longrightarrow> sint (len s) = int (length (lst s))"
  unfolding shard_inv_def by blast

lemma inv_key_iff:
  assumes "shard_inv E s" and "idx s k = Some a" and "b \<in> set (lst s)"
  shows "key (the (elems s b)) = k \<longleftrightarrow> b = a"
proof
  assume "key (the (elems s b)) = k"
  moreover obtain e where "elems s b = Some e" "idx s (key e) = Some b"
    using inv_lst(2) [OF assms(1,3)] by blast
  ultimately show "b = a" using assms(2) by simp
next
  assume "b = a"
  then show "key (the (elems s b)) = k"
    using inv_idx_Some(3) [OF assms(1,2)] by auto
qed

lemma entries_eq_map:
  assumes "shard_inv E s"
  shows "entries s = map (\<lambda>b. the (elems s b)) (lst s)"
  unfolding entries_def
  by (rule map_filter_all_Some) (use inv_lst(2) [OF assms] in fastforce)

lemma inv_keys_distinct:
  assumes "shard_inv E s"
  shows "distinct (map key (entries s))"
proof -
  have "inj_on (\<lambda>b. key (the (elems s b))) (set (lst s))"
  proof (rule inj_onI)
    fix a b assume a: "a \<in> set (lst s)" and b: "b \<in> set (lst s)"
      and eq: "key (the (elems s a)) = key (the (elems s b))"
    obtain e where e: "elems s a = Some e" "idx s (key e) = Some a"
      using inv_lst(2) [OF assms a] by blast
    show "a = b"
      using inv_key_iff [OF assms e(2) b] e(1) eq by simp
  qed
  then show ?thesis
    by (simp add: entries_eq_map [OF assms] distinct_map inv_distinct [OF assms] comp_def)
qed

lemma inv_idx_dom:
  assumes "shard_inv E s"
  shows "idx s k \<noteq> None \<longleftrightarrow> k \<in> key ` set (entries s)"
proof
  assume "idx s k \<noteq> None"
  then obtain a where a: "idx s k = Some a" by blast
  from inv_idx_Some(1,3) [OF assms a] show "k \<in> key ` set (entries s)"
    by (force simp: entries_eq_map [OF assms])
next
  assume "k \<in> key ` set (entries s)"
  then obtain b where b: "b \<in> set (lst s)" "k = key (the (elems s b))"
    by (auto simp: entries_eq_map [OF assms])
  then show "idx s k \<noteq> None"
    using inv_lst(2) [OF assms b(1)] by auto
qed


subsection \<open>The count\<close>

lemma sint_add_one:
  "sint ((w :: 32 word) + 1) = (sint w + 1 + 2 ^ 31) mod 2 ^ 32 - 2 ^ 31"
proof -
  have "w + 1 = word_of_int (sint w + 1)" by simp
  then have "sint (w + 1) = sint (word_of_int (sint w + 1) :: 32 word)" by simp
  then show ?thesis by (simp only: int_word_sint) simp
qed

lemma sint_sub_one:
  "sint ((w :: 32 word) - 1) = (sint w - 1 + 2 ^ 31) mod 2 ^ 32 - 2 ^ 31"
proof -
  have "w - 1 = word_of_int (sint w - 1)" by simp
  then have "sint (w - 1) = sint (word_of_int (sint w - 1) :: 32 word)" by simp
  then show ?thesis by (simp only: int_word_sint) simp
qed

lemma sint_succ:
  assumes "0 \<le> sint (w :: 32 word)" and "0 < sint (w + 1)"
  shows "sint (w + 1) = sint w + 1"
proof (cases "sint w + 1 < 2 ^ 31")
  case True
  then show ?thesis using assms(1) by (simp add: sint_add_one)
next
  case False
  moreover have "sint w < 2 ^ 31" using sint_lt [of w] by simp
  ultimately have "sint w = 2 ^ 31 - 1" by simp
  then have "sint (w + 1) = - (2 ^ 31)" by (simp add: sint_add_one)
  then show ?thesis using assms(2) by simp
qed

lemma sint_succ_small:
  assumes "0 \<le> sint (w :: 32 word)" and "sint w + 1 < 2 ^ 31"
  shows "sint (w + 1) = sint w + 1"
  using assms by (simp add: sint_add_one)

lemma sint_pred:
  assumes "0 < sint (w :: 32 word)"
  shows "sint (w - 1) = sint w - 1"
proof -
  have "sint w < 2 ^ 31" using sint_lt [of w] by simp
  then show ?thesis using assms by (simp add: sint_sub_one)
qed


subsection \<open>The three changes a shard goes through\<close>

lemma inv_idx_unique:
  assumes "shard_inv E s" and "idx s k = Some a" and "idx s k' = Some a"
  shows "k' = k"
  using inv_idx_Some(3) [OF assms(1,2)] inv_idx_Some(3) [OF assms(1,3)] by auto

lemma touch_inv:
  assumes inv: "shard_inv E s" and k: "idx s k = Some a"
  shows "shard_inv E (s\<lparr>elems := (elems s)(a \<mapsto> \<lparr>key = k, val = v\<rparr>), lst := a # remove1 a (lst s)\<rparr>)"
proof -
  have a: "a \<in> set (lst s)" and d: "distinct (lst s)"
    using inv_idx_Some(1) [OF inv k] inv_distinct [OF inv] by simp_all
  have set_eq: "set (a # remove1 a (lst s)) = set (lst s)"
    using a d by auto
  have len_eq: "length (a # remove1 a (lst s)) = length (lst s)"
    using a by (simp add: length_remove1) (cases "lst s"; simp)
  show ?thesis
    unfolding shard_inv_def
  proof (intro conjI allI impI ballI)
    show "distinct (lst (s\<lparr>elems := (elems s)(a \<mapsto> \<lparr>key = k, val = v\<rparr>), lst := a # remove1 a (lst s)\<rparr>))"
      using d by simp
  next
    fix k' a'
    assume "idx (s\<lparr>elems := (elems s)(a \<mapsto> \<lparr>key = k, val = v\<rparr>), lst := a # remove1 a (lst s)\<rparr>) k' = Some a'"
    then have k': "idx s k' = Some a'" by simp
    show "a' \<in> set (lst (s\<lparr>elems := (elems s)(a \<mapsto> \<lparr>key = k, val = v\<rparr>), lst := a # remove1 a (lst s)\<rparr>))"
      using inv_idx_Some(1) [OF inv k'] set_eq by simp
    show "hashable E k'" by (rule inv_idx_Some(2) [OF inv k'])
    show "\<exists>e. elems (s\<lparr>elems := (elems s)(a \<mapsto> \<lparr>key = k, val = v\<rparr>), lst := a # remove1 a (lst s)\<rparr>) a' = Some e \<and> key e = k'"
    proof (cases "a' = a")
      case True
      then have "k' = k" using inv_idx_unique [OF inv k] k' by simp
      then show ?thesis using True by simp
    next
      case False
      then show ?thesis using inv_idx_Some(3) [OF inv k'] by auto
    qed
  next
    fix b
    assume "b \<in> set (lst (s\<lparr>elems := (elems s)(a \<mapsto> \<lparr>key = k, val = v\<rparr>), lst := a # remove1 a (lst s)\<rparr>))"
    then have b: "b \<in> set (lst s)" using set_eq by auto
    show "b < brk (s\<lparr>elems := (elems s)(a \<mapsto> \<lparr>key = k, val = v\<rparr>), lst := a # remove1 a (lst s)\<rparr>)"
      using inv_lst(1) [OF inv b] by simp
    show "\<exists>e. elems (s\<lparr>elems := (elems s)(a \<mapsto> \<lparr>key = k, val = v\<rparr>), lst := a # remove1 a (lst s)\<rparr>) b = Some e
            \<and> idx (s\<lparr>elems := (elems s)(a \<mapsto> \<lparr>key = k, val = v\<rparr>), lst := a # remove1 a (lst s)\<rparr>) (key e) = Some b"
      using inv_lst(2) [OF inv b] k by (cases "b = a") auto
  next
    show "sint (len (s\<lparr>elems := (elems s)(a \<mapsto> \<lparr>key = k, val = v\<rparr>), lst := a # remove1 a (lst s)\<rparr>))
          = int (length (lst (s\<lparr>elems := (elems s)(a \<mapsto> \<lparr>key = k, val = v\<rparr>), lst := a # remove1 a (lst s)\<rparr>)))"
      using inv_len [OF inv] len_eq by simp
  qed
qed



lemma push_inv:
  assumes inv: "shard_inv E s" and k: "idx s k = None" and h: "hashable E k"
    and n: "sint (len s + 1) = sint (len s) + 1"
    and s': "s' = s\<lparr>lst := brk s # lst s, elems := (elems s)(brk s \<mapsto> \<lparr>key = k, val = v\<rparr>),
                   brk := Suc (brk s), idx := (idx s)(k \<mapsto> brk s), len := len s + 1\<rparr>"
  shows "shard_inv E s'"
proof -
  have fresh: "brk s \<notin> set (lst s)"
    using inv_lst(1) [OF inv] by blast
  show ?thesis
    unfolding shard_inv_def
  proof (intro conjI allI impI ballI)
    show "distinct (lst s')"
      using fresh inv_distinct [OF inv] by (simp add: s')
  next
    fix k' a'
    assume *: "idx s' k' = Some a'"
    show "a' \<in> set (lst s')"
      using * inv_idx_Some(1) [OF inv, of k' a'] by (cases "k' = k") (simp_all add: s')
    show "hashable E k'"
      using * h inv_idx_Some(2) [OF inv, of k' a'] by (cases "k' = k") (simp_all add: s')
    show "\<exists>e. elems s' a' = Some e \<and> key e = k'"
    proof (cases "k' = k")
      case True
      then show ?thesis using * by (simp add: s')
    next
      case False
      then have k': "idx s k' = Some a'" using * by (simp add: s')
      then have "a' \<noteq> brk s" using inv_idx_Some(1) [OF inv k'] fresh by blast
      then show ?thesis using inv_idx_Some(3) [OF inv k'] by (auto simp: s')
    qed
  next
    fix b
    assume "b \<in> set (lst s')"
    then have b: "b = brk s \<or> b \<in> set (lst s)" by (simp add: s')
    show "b < brk s'"
      using b inv_lst(1) [OF inv, of b] by (auto simp: s')
    show "\<exists>e. elems s' b = Some e \<and> idx s' (key e) = Some b"
    proof (cases "b = brk s")
      case True
      then show ?thesis by (simp add: s')
    next
      case False
      then have b': "b \<in> set (lst s)" using b by simp
      then obtain e where e: "elems s b = Some e" "idx s (key e) = Some b"
        using inv_lst(2) [OF inv b'] by blast
      then have "key e \<noteq> k" using k by auto
      then show ?thesis using e False by (simp add: s')
    qed
  next
    show "sint (len s') = int (length (lst s'))"
      using n inv_len [OF inv] by (simp add: s')
  qed
qed

lemma push_entries:
  assumes inv: "shard_inv E s" and k: "idx s k = None" and h: "hashable E k"
    and n: "sint (len s + 1) = sint (len s) + 1"
    and s': "s' = s\<lparr>lst := brk s # lst s, elems := (elems s)(brk s \<mapsto> \<lparr>key = k, val = v\<rparr>),
                   brk := Suc (brk s), idx := (idx s)(k \<mapsto> brk s), len := len s + 1\<rparr>"
  shows "entries s' = \<lparr>key = k, val = v\<rparr> # entries s"
proof -
  have fresh: "brk s \<notin> set (lst s)"
    using inv_lst(1) [OF inv] by blast
  have *: "map (\<lambda>b. the (((elems s)(brk s \<mapsto> \<lparr>key = k, val = v\<rparr>)) b)) (lst s)
        = map (\<lambda>b. the (elems s b)) (lst s)"
    using fresh by (intro map_cong) auto
  have "entries s' = map (\<lambda>b. the (elems s' b)) (lst s')"
    by (rule entries_eq_map [OF push_inv [OF inv k h n s']])
  also have "\<dots> = \<lparr>key = k, val = v\<rparr> # map (\<lambda>b. the (elems s b)) (lst s)"
    using * by (simp add: s')
  finally show ?thesis
    by (simp add: entries_eq_map [OF inv])
qed

lemma unlink_inv:
  assumes inv: "shard_inv E s" and k: "idx s k = Some a"
    and s': "s' = s\<lparr>lst := remove1 a (lst s), idx := (idx s)(k := None), len := len s - 1\<rparr>"
  shows "shard_inv E s'"
proof -
  have a: "a \<in> set (lst s)" and d: "distinct (lst s)"
    using inv_idx_Some(1) [OF inv k] inv_distinct [OF inv] by simp_all
  have set_eq: "set (remove1 a (lst s)) = set (lst s) - {a}"
    using d by simp
  have pos: "0 < sint (len s)"
    using a inv_len [OF inv] by (cases "lst s") auto
  show ?thesis
    unfolding shard_inv_def
  proof (intro conjI allI impI ballI)
    show "distinct (lst s')"
      using d by (simp add: s')
  next
    fix k' a'
    assume *: "idx s' k' = Some a'"
    then have k': "idx s k' = Some a'" and ne: "k' \<noteq> k"
      by (auto simp: s' split: if_splits)
    have "a' \<noteq> a" using inv_idx_unique [OF inv k, of k'] k' ne by blast
    then show "a' \<in> set (lst s')"
      using inv_idx_Some(1) [OF inv k'] set_eq by (simp add: s')
    show "hashable E k'" by (rule inv_idx_Some(2) [OF inv k'])
    show "\<exists>e. elems s' a' = Some e \<and> key e = k'"
      using inv_idx_Some(3) [OF inv k'] by (auto simp: s')
  next
    fix b
    assume "b \<in> set (lst s')"
    then have b: "b \<in> set (lst s)" and ne: "b \<noteq> a"
      using set_eq by (auto simp: s')
    show "b < brk s'"
      using inv_lst(1) [OF inv b] by (simp add: s')
    obtain e where e: "elems s b = Some e" "idx s (key e) = Some b"
      using inv_lst(2) [OF inv b] by blast
    then have "key e \<noteq> k" using k ne by auto
    then show "\<exists>e. elems s' b = Some e \<and> idx s' (key e) = Some b"
      using e by (simp add: s')
  next
    obtain m where m: "length (lst s) = Suc m" using a by (cases "lst s") auto
    have "int (length (remove1 a (lst s))) = int (length (lst s)) - 1"
      using a by (simp add: length_remove1 m)
    then show "sint (len s') = int (length (lst s'))"
      using sint_pred [OF pos] inv_len [OF inv] by (simp add: s')
  qed
qed

lemma unlink_entries:
  assumes inv: "shard_inv E s" and k: "idx s k = Some a"
    and s': "s' = s\<lparr>lst := remove1 a (lst s), idx := (idx s)(k := None), len := len s - 1\<rparr>"
  shows "entries s' = filter (\<lambda>e. key e \<noteq> k) (entries s)"
proof -
  have *: "filter (\<lambda>e. key e \<noteq> k) (map (\<lambda>b. the (elems s b)) (lst s))
        = map (\<lambda>b. the (elems s b)) (remove1 a (lst s))"
    by (rule filter_key_remove1 [OF inv_distinct [OF inv]]) (use inv_key_iff [OF inv k] in blast)
  have "entries s' = map (\<lambda>b. the (elems s' b)) (lst s')"
    by (rule entries_eq_map [OF unlink_inv [OF inv k s']])
  also have "\<dots> = map (\<lambda>b. the (elems s b)) (remove1 a (lst s))"
    by (simp add: s')
  finally show ?thesis
    using * by (simp add: entries_eq_map [OF inv])
qed


subsection \<open>The shard operations on a well-formed shard\<close>

lemma add_present:
  assumes inv: "shard_inv E s" and k: "idx s k = Some a"
  shows "add E s k v =
           Inr (s\<lparr>elems := (elems s)(a \<mapsto> \<lparr>key = k, val = v\<rparr>), lst := a # remove1 a (lst s)\<rparr>)"
proof -
  obtain v0 where "elems s a = Some \<lparr>key = k, val = v0\<rparr>"
    using inv_idx_Some(3) [OF inv k] by blast
  then show ?thesis
    using inv_idx_Some(1,2) [OF inv k] k by (simp add: add_def MoveToFront_def)
qed

lemma get_present:
  assumes inv: "shard_inv E s" and k: "idx s k = Some a"
  shows "\<exists>v0. elems s a = Some \<lparr>key = k, val = v0\<rparr> \<and>
           get E s k = Inr ((Some v0, True),
             s\<lparr>elems := (elems s)(a \<mapsto> \<lparr>key = k, val = v0\<rparr>), lst := a # remove1 a (lst s)\<rparr>)"
proof -
  obtain v0 where v0: "elems s a = Some \<lparr>key = k, val = v0\<rparr>"
    using inv_idx_Some(3) [OF inv k] by blast
  then have "(elems s)(a \<mapsto> \<lparr>key = k, val = v0\<rparr>) = elems s"
    by (simp add: map_upd_triv)
  then show ?thesis
    using v0 inv_idx_Some(1,2) [OF inv k] k by (simp add: get_def MoveToFront_def)
qed


lemma removeElement_indexed:
  assumes inv: "shard_inv E s" and k: "idx s k = Some a"
  shows "\<exists>v0. removeElement E s a = Inr ((Some k, Some v0),
           s\<lparr>lst := remove1 a (lst s), idx := (idx s)(k := None), len := len s - 1\<rparr>)"
proof -
  obtain v0 where "elems s a = Some \<lparr>key = k, val = v0\<rparr>"
    using inv_idx_Some(3) [OF inv k] by blast
  then show ?thesis
    using inv_idx_Some(1,2) [OF inv k] by (simp add: removeElement_def list_Remove_def)
qed

lemma removeKey_present:
  assumes inv: "shard_inv E s" and k: "idx s k = Some a"
  shows "removeKey E s k =
           Inr (s\<lparr>lst := remove1 a (lst s), idx := (idx s)(k := None), len := len s - 1\<rparr>)"
  using removeElement_indexed [OF inv k] inv_idx_Some(2) [OF inv k] k
  by (auto simp: removeKey_def)


lemma add_absent_no_eviction:
  assumes "hashable E k" and "idx s k = None"
    and "\<not> (0 < shard.cap s \<and> shard.cap s < sint (len s + 1))"
  shows "add E s k v =
           Inr (s\<lparr>lst := brk s # lst s, elems := (elems s)(brk s \<mapsto> \<lparr>key = k, val = v\<rparr>),
                  brk := Suc (brk s), idx := (idx s)(k \<mapsto> brk s), len := len s + 1\<rparr>)"
  using assms by (auto simp: add_def Let_def shard_Len_def)

lemma add_absent_eviction:
  assumes inv: "shard_inv E s" and h: "hashable E k" and k: "idx s k = None"
    and c: "0 < shard.cap s" "shard.cap s < sint (len s + 1)"
  shows "\<exists>s'. add E s k v = Inr s' \<and> shard_inv E s' \<and> entries s \<noteq> []
           \<and> entries s' = \<lparr>key = k, val = v\<rparr> # butlast (entries s)
           \<and> idx s' = ((idx s)(k \<mapsto> brk s))(key (last (entries s)) := None)
           \<and> key (last (entries s)) \<noteq> k \<and> idx s (key (last (entries s))) \<noteq> None
           \<and> len s' = len s"
proof -
  define s3 where "s3 = s\<lparr>lst := brk s # lst s, elems := (elems s)(brk s \<mapsto> \<lparr>key = k, val = v\<rparr>),
                  brk := Suc (brk s), idx := (idx s)(k \<mapsto> brk s), len := len s + 1\<rparr>"
  have nonneg: "0 \<le> sint (len s)" using inv_len [OF inv] by simp
  have n: "sint (len s + 1) = sint (len s) + 1"
    using sint_succ [OF nonneg] c by simp
  have inv3: "shard_inv E s3" by (rule push_inv [OF inv k h n s3_def])
  have ent3: "entries s3 = \<lparr>key = k, val = v\<rparr> # entries s"
    by (rule push_entries [OF inv k h n s3_def])
  have ne: "lst s \<noteq> []"
    using c n inv_len [OF inv] by auto
  define le where "le = last (lst s)"
  have le: "le \<in> set (lst s)" using ne by (simp add: le_def)
  then obtain e where e: "elems s le = Some e" "idx s (key e) = Some le"
    using inv_lst(2) [OF inv le] by blast
  have le_brk: "le \<noteq> brk s" using inv_lst(1) [OF inv le] by simp
  have ke: "key e \<noteq> k" using e(2) k by auto
  have ents: "entries s \<noteq> []" and last_e: "last (entries s) = e"
    using ne e(1) by (simp_all add: entries_eq_map [OF inv] last_map le_def)
  have idx3: "idx s3 (key e) = Some le"
    using e(2) ke by (simp add: s3_def)
  define s4 where "s4 = s3\<lparr>lst := remove1 le (lst s3), idx := (idx s3)(key e := None), len := len s3 - 1\<rparr>"
  have "removeOldest E s3 = removeElement E s3 le"
    using ne by (simp add: removeOldest_def Back_def s3_def le_def split: list.splits)
  moreover obtain v0 where "removeElement E s3 le = Inr ((Some (key e), Some v0), s4)"
    using removeElement_indexed [OF inv3 idx3] unfolding s4_def by blast
  ultimately have "add E s k v = Inr s4"
    using h k c by (simp add: add_def Let_def shard_Len_def s3_def [symmetric])
  moreover have "shard_inv E s4" by (rule unlink_inv [OF inv3 idx3 s4_def])
  moreover have "entries s4 = \<lparr>key = k, val = v\<rparr> # butlast (entries s)"
  proof -
    have "entries s4 = filter (\<lambda>x. key x \<noteq> key e) (entries s3)"
      by (rule unlink_entries [OF inv3 idx3 s4_def])
    also have "\<dots> = \<lparr>key = k, val = v\<rparr> # filter (\<lambda>x. key x \<noteq> key (last (entries s))) (entries s)"
      using ke by (simp add: ent3 last_e)
    finally show ?thesis
      by (simp add: filter_last_key [OF inv_keys_distinct [OF inv] ents])
  qed
  moreover have "idx s4 = ((idx s)(k \<mapsto> brk s))(key (last (entries s)) := None)"
    by (simp add: s4_def s3_def last_e)
  moreover have "len s4 = len s" by (simp add: s4_def s3_def)
  ultimately show ?thesis
    using ents ke e(2) last_e by auto
qed

section \<open>Construction\<close>

lemma configured_shards: "shards (configured opts :: ('u,'v) LRU) = None"
proof -
  have "shards (foldl (\<lambda>l opt. apply_option opt l) (l0 :: ('u,'v) LRU) opts) = shards l0" for l0
  proof (induction opts arbitrary: l0)
    case Nil show ?case by simp
  next
    case (Cons x xs) show ?case by (cases x) (simp_all add: Cons.IH)
  qed
  then show ?thesis by (simp add: configured_def)
qed

lemma New_eq:
  "New opts =
     (configured opts :: ('u,'v) LRU)\<lparr>nshards := max 1 (nshards (configured opts :: ('u,'v) LRU)),
       shards := Some (replicate (nat (max 1 (nshards (configured opts :: ('u,'v) LRU))))
          (newShard (cap (configured opts :: ('u,'v) LRU) sdiv max 1 (nshards (configured opts :: ('u,'v) LRU)))))\<rparr>"
  by (simp add: New_def configured_def Let_def max_def map_replicate_const)

lemma sdiv_trunc:
  assumes "1 \<le> (n::int)"
  shows "\<bar>c sdiv n\<bar> * n \<le> \<bar>c\<bar>" and "\<bar>c\<bar> - \<bar>c sdiv n\<bar> * n < n"
    and "c < n \<Longrightarrow> c sdiv n \<le> 0" and "0 \<le> c \<Longrightarrow> c < n \<Longrightarrow> c sdiv n = 0"
    and "0 \<le> c \<Longrightarrow> 0 \<le> c sdiv n" and "c \<le> 0 \<Longrightarrow> c sdiv n \<le> 0"
proof -
  have n: "sgn n = 1" "\<bar>n\<bar> = n" "0 < n" using assms by simp_all
  have q: "\<bar>c sdiv n\<bar> = \<bar>c\<bar> div n"
    by (cases "c = 0") (simp_all add: signed_divide_int_def n abs_mult pos_imp_zdiv_nonneg_iff)
  have "\<bar>c\<bar> div n * n + \<bar>c\<bar> mod n = \<bar>c\<bar>" by simp
  moreover have "0 \<le> \<bar>c\<bar> mod n" using n(3) by simp
  ultimately show "\<bar>c sdiv n\<bar> * n \<le> \<bar>c\<bar>"
    unfolding q by linarith
  show "\<bar>c\<bar> - \<bar>c sdiv n\<bar> * n < n"
    unfolding q using n(3) by (simp add: minus_div_mult_eq_mod)
  show "c sdiv n \<le> 0" if "c < n"
  proof (cases "0 \<le> c")
    case True
    then show ?thesis using that n by (simp add: signed_divide_int_def div_pos_pos_trivial)
  next
    case False
    then have "sgn c = -1" by simp
    then show ?thesis using n by (simp add: signed_divide_int_def pos_imp_zdiv_nonneg_iff)
  qed
  show "c sdiv n = 0" if "0 \<le> c" "c < n"
    using that n by (simp add: signed_divide_int_def div_pos_pos_trivial)
  show "0 \<le> c sdiv n" if "0 \<le> c"
    using that n by (simp add: signed_divide_int_def sgn_if pos_imp_zdiv_nonneg_iff)
  show "c sdiv n \<le> 0" if "c \<le> 0"
    using that n by (simp add: signed_divide_int_def sgn_if pos_imp_zdiv_nonneg_iff)
qed

text \<open>
  Claim C8, as the code has it.  \<open>New\<close> clamps the shard count to at least 1 and gives every
  shard the capacity \<open>cap / nshards\<close>, truncated towards zero (the quotient has the sign of
  the total capacity, and its absolute value is the floor of the quotient of the
  absolute values): the remainder is lost.  A shard's capacity is not positive, that is
  unbounded, whenever the total capacity is below the shard count, and it is zero when
  the total capacity is moreover not negative.
\<close>

theorem New_clamps_and_divides:
  "nshards (New opts :: ('u, 'v) LRU) = max 1 (nshards (configured opts :: ('u, 'v) LRU))
   \<and> cap (New opts :: ('u, 'v) LRU) = cap (configured opts :: ('u, 'v) LRU)
   \<and> shards (New opts :: ('u, 'v) LRU) =
        Some (replicate (nat (nshards (New opts :: ('u, 'v) LRU)))
               (newShard (cap (New opts :: ('u, 'v) LRU) sdiv nshards (New opts :: ('u, 'v) LRU))))
   \<and> (\<forall>s \<in> set (the_shards (New opts :: ('u, 'v) LRU)).
         shard.cap s = cap (New opts :: ('u, 'v) LRU) sdiv nshards (New opts :: ('u, 'v) LRU)
         \<and> \<bar>shard.cap s\<bar> * nshards (New opts :: ('u, 'v) LRU) \<le> \<bar>cap (New opts :: ('u, 'v) LRU)\<bar>
         \<and> \<bar>cap (New opts :: ('u, 'v) LRU)\<bar> - \<bar>shard.cap s\<bar> * nshards (New opts :: ('u, 'v) LRU)
               < nshards (New opts :: ('u, 'v) LRU)
         \<and> (0 \<le> cap (New opts :: ('u, 'v) LRU) \<longrightarrow> 0 \<le> shard.cap s)
         \<and> (cap (New opts :: ('u, 'v) LRU) \<le> 0 \<longrightarrow> shard.cap s \<le> 0)
         \<and> (cap (New opts :: ('u, 'v) LRU) < nshards (New opts :: ('u, 'v) LRU) \<longrightarrow> shard.cap s \<le> 0)
         \<and> (0 \<le> cap (New opts :: ('u, 'v) LRU)
              \<and> cap (New opts :: ('u, 'v) LRU) < nshards (New opts :: ('u, 'v) LRU) \<longrightarrow> shard.cap s = 0))"
proof -
  let ?l = "New opts :: ('u, 'v) LRU"
  let ?c = "configured opts :: ('u, 'v) LRU"
  have n: "nshards ?l = max 1 (nshards ?c)" and c: "cap ?l = cap ?c"
    by (simp_all add: New_eq)
  have n1: "1 \<le> nshards ?l" by (simp add: n)
  have sh: "shards ?l = Some (replicate (nat (nshards ?l)) (newShard (cap ?l sdiv nshards ?l)))"
    by (simp add: New_eq)
  have "shard.cap s = cap ?l sdiv nshards ?l" if "s \<in> set (the_shards ?l)" for s
    using that by (auto simp: the_shards_def sh newShard_def)
  then show ?thesis
    using n c sh sdiv_trunc [OF n1, of "cap ?l"] by simp
qed

theorem New_clamps_and_divides_witness:
  "nshards (New [withCapacity 3, withShards 4] :: (unit, unit) LRU) = 4
   \<and> cap (New [withCapacity 3, withShards 4] :: (unit, unit) LRU) = 3
   \<and> map shard.cap (the_shards (New [withCapacity 3, withShards 4] :: (unit, unit) LRU)) = [0, 0, 0, 0]"
  using New_clamps_and_divides [of "[withCapacity 3, withShards 4]", where ?'u = unit and ?'v = unit]
  by (simp add: configured_def the_shards_def newShard_def numeral_eq_Suc)

text \<open>
  Claim C8 as stated fails for a negative total capacity: \<open>-5 < 2\<close>, yet
  \<open>New(withCapacity(-5), withShards(2))\<close> gives both shards the capacity \<open>-5 / 2 = -2\<close>, not 0.
\<close>

theorem New_negative_capacity_counterexample:
  "cap (New [withCapacity (- 5), withShards 2] :: (unit, unit) LRU) = - 5
   \<and> nshards (New [withCapacity (- 5), withShards 2] :: (unit, unit) LRU) = 2
   \<and> map shard.cap (the_shards (New [withCapacity (- 5), withShards 2] :: (unit, unit) LRU)) = [- 2, - 2]"
  by (simp add: New_def Let_def the_shards_def newShard_def signed_divide_int_def upt_rec)

section \<open>The mask of the router\<close>

lemma New_nshards: "nshards (New opts :: ('u,'v) LRU) \<ge> 1"
  by (simp add: New_eq)

lemma New_length: "int (length (the_shards (New opts :: ('u,'v) LRU))) = nshards (New opts :: ('u,'v) LRU)"
  by (simp add: New_eq the_shards_def)

lemma mask_index_bound:
  assumes "1 \<le> n"
  shows "int (unat ((h :: 32 word) AND word_of_int (n - 1))) < n"
proof -
  let ?m = "word_of_int (n - 1) :: 32 word"
  have "unat (h AND ?m) \<le> unat ?m"
    by (simp add: word_le_nat_alt [symmetric] word_and_le1)
  then have "int (unat (h AND ?m)) \<le> int (unat ?m)"
    by (simp only: of_nat_le_iff)
  also have "int (unat ?m) = uint ?m"
    by (simp only: uint_nat)
  also have "uint ?m = (n - 1) mod 2 ^ 32"
    by (simp only: uint_word_of_int) simp
  also have "(n - 1) mod 2 ^ 32 \<le> n - 1"
    using assms by (intro zmod_le_nonneg_dividend) simp
  finally show ?thesis by simp
qed

section \<open>The cache as a whole\<close>

subsection \<open>Updating one shard\<close>

lemma the_shards_set_shard [simp]: "the_shards (set_shard l i s) = (the_shards l)[i := s]"
  by (simp add: set_shard_def the_shards_def)

lemma nshards_set_shard [simp]: "nshards (set_shard l i s) = nshards l"
  by (simp add: set_shard_def)

lemma shards_set_shard [simp]: "shards (set_shard l i s) \<noteq> None"
  by (simp add: set_shard_def)


lemma LRU_shard_depends:
  "key_bytes E' k = key_bytes E k \<Longrightarrow> nshards l' = nshards l
     \<Longrightarrow> length (the_shards l') = length (the_shards l)
     \<Longrightarrow> LRU_shard E' l' k = LRU_shard E l k"
  by (simp add: LRU_shard_def cong: sum.case_cong)

lemma LRU_shard_set_shard [simp]: "LRU_shard E (set_shard l i s) k = LRU_shard E l k"
  by (rule LRU_shard_depends) simp_all

lemma LRU_shard_bound: "LRU_shard E l k = Inr i \<Longrightarrow> i < length (the_shards l)"
  by (auto simp: LRU_shard_def Let_def split: sum.splits if_splits)

lemma lazyInit_initialised: "shards l \<noteq> None \<Longrightarrow> lazyInit l = l"
  by (auto simp: lazyInit_def)

subsection \<open>What the cache invariant gives\<close>

lemma wf_shards: "well_formed E l \<Longrightarrow> shards l \<noteq> None"
  and wf_nshards: "well_formed E l \<Longrightarrow> nshards l = int (length (the_shards l))"
  and wf_nonempty: "well_formed E l \<Longrightarrow> the_shards l \<noteq> []"
  and wf_shard: "well_formed E l \<Longrightarrow> i < length (the_shards l) \<Longrightarrow> shard_inv E (the_shards l ! i)"
  unfolding well_formed_def by blast+

lemma LRU_inv_iff: "LRU_inv E l \<longleftrightarrow> well_formed E l \<and> (\<forall>k. routed E l k)"
  unfolding LRU_inv_def well_formed_def routed_def by auto

lemma LRU_inv_wf: "LRU_inv E l \<Longrightarrow> well_formed E l"
  and LRU_inv_routed: "LRU_inv E l \<Longrightarrow> routed E l k"
  by (simp_all add: LRU_inv_iff)

lemma LRU_inv_shards: "LRU_inv E l \<Longrightarrow> shards l \<noteq> None"
  and LRU_inv_nshards: "LRU_inv E l \<Longrightarrow> nshards l = int (length (the_shards l))"
  and LRU_inv_nonempty: "LRU_inv E l \<Longrightarrow> the_shards l \<noteq> []"
  and LRU_inv_shard: "LRU_inv E l \<Longrightarrow> i < length (the_shards l) \<Longrightarrow> shard_inv E (the_shards l ! i)"
  and LRU_inv_route:
    "LRU_inv E l \<Longrightarrow> i < length (the_shards l) \<Longrightarrow> idx (the_shards l ! i) k = Some a
       \<Longrightarrow> LRU_shard E l k = Inr i"
  unfolding LRU_inv_def by blast+



lemma routed_set_shard:
  assumes "routed E l k" and "idx s' k \<noteq> None \<longrightarrow> LRU_shard E l k = Inr i"
  shows "routed E (set_shard l i s') k"
  unfolding routed_def
proof (intro allI impI)
  fix j assume j: "j < length (the_shards (set_shard l i s'))"
    and h: "idx (the_shards (set_shard l i s') ! j) k \<noteq> None"
  show "LRU_shard E (set_shard l i s') k = Inr j"
  proof (cases "j = i")
    case True
    then show ?thesis using j h assms(2) by simp
  next
    case False
    then show ?thesis using j h assms(1) unfolding routed_def by simp
  qed
qed




lemma LRU_inv_set_shard:
  assumes inv: "LRU_inv E l" and i: "i < length (the_shards l)" and s': "shard_inv E s'"
    and route: "\<And>k a. idx s' k = Some a \<Longrightarrow> LRU_shard E l k = Inr i"
  shows "LRU_inv E (set_shard l i s')"
  unfolding LRU_inv_def
proof (intro conjI allI impI)
  show "shards (set_shard l i s') \<noteq> None" by simp
  show "the_shards (set_shard l i s') \<noteq> []" using LRU_inv_nonempty [OF inv] by simp
  show "nshards (set_shard l i s') = int (length (the_shards (set_shard l i s')))"
    using LRU_inv_nshards [OF inv] by simp
next
  fix j assume j: "j < length (the_shards (set_shard l i s'))"
  then have j': "j < length (the_shards l)" by simp
  show "shard_inv E (the_shards (set_shard l i s') ! j)"
    using s' LRU_inv_shard [OF inv j'] i by (cases "j = i") simp_all
  fix k a assume "idx (the_shards (set_shard l i s') ! j) k = Some a"
  then show "LRU_shard E (set_shard l i s') k = Inr j"
    using route LRU_inv_route [OF inv j'] i by (cases "j = i") simp_all
qed

subsection \<open>The length of the cache\<close>





subsection \<open>The public operations on a well-formed cache\<close>

lemma Add_routed:
  assumes "well_formed E l" and "LRU_shard E l k = Inr i"
  shows "Add E l k v =
           (case add E (the_shards l ! i) k v of Inl p \<Rightarrow> Inl p | Inr s' \<Rightarrow> Inr (set_shard l i s'))"
  using assms(2) by (simp add: Add_def lazyInit_initialised [OF wf_shards [OF assms(1)]])

lemma Get_routed:
  assumes "LRU_shard E l k = Inr i"
  shows "Get E l k =
           (case get E (the_shards l ! i) k of
              Inl p \<Rightarrow> Inl p
            | Inr (r, s') \<Rightarrow> Inr (r, set_shard l i s'))"
  using assms by (simp add: Get_def)

lemma Remove_routed:
  assumes "LRU_shard E l k = Inr i"
  shows "Remove E l k =
           (case removeKey E (the_shards l ! i) k of Inl p \<Rightarrow> Inl p | Inr s' \<Rightarrow> Inr (set_shard l i s'))"
  using assms by (simp add: Remove_def)



subsection \<open>The invariant holds of every cache built with the public operations\<close>

text \<open>
  \<open>New\<close> establishes \<open>LRU_inv\<close>; \<open>Add\<close>, \<open>Get\<close> and \<open>Remove\<close> keep it (\<open>Add\<close> as long as the
  32-bit count of the shard does not overflow), under the environment it holds for.
\<close>

lemma newShard_inv: "shard_inv E (newShard c)"
  by (simp add: shard_inv_def newShard_def)

lemma New_inv: "LRU_inv E (New opts)"
  unfolding LRU_inv_def
  by (simp add: New_eq the_shards_def newShard_inv) (simp add: newShard_def)

lemma add_inv:
  assumes inv: "shard_inv E s" and a: "add E s k v = Inr s'"
    and n: "int (length (lst s)) + 1 < 2 ^ 31"
  shows "shard_inv E s'" and "\<And>k0 a0. idx s' k0 = Some a0 \<Longrightarrow> k0 = k \<or> idx s k0 \<noteq> None"
proof -
  have h: "hashable E k" using a by (auto simp: add_def split: if_splits)
  have "shard_inv E s' \<and> (\<forall>k0 a0. idx s' k0 = Some a0 \<longrightarrow> k0 = k \<or> idx s k0 \<noteq> None)"
  proof (cases "idx s k")
    case (Some b)
    then show ?thesis
      using a touch_inv [OF inv Some, of v] by (auto simp: add_present [OF inv Some])
  next
    case None
    have n': "sint (len s + 1) = sint (len s) + 1"
      using n inv_len [OF inv] by (intro sint_succ_small) simp_all
    show ?thesis
    proof (cases "0 < shard.cap s \<and> shard.cap s < sint (len s + 1)")
      case True
      then show ?thesis
        using add_absent_eviction [OF inv h None, of v] a by (auto split: if_splits)
    next
      case False
      then show ?thesis
        using a push_inv [OF inv None h n' refl, of v]
        by (auto simp: add_absent_no_eviction [OF h None False] split: if_splits)
    qed
  qed
  then show "shard_inv E s'" and "\<And>k0 a0. idx s' k0 = Some a0 \<Longrightarrow> k0 = k \<or> idx s k0 \<noteq> None"
    by blast+
qed

lemma Add_inv:
  assumes inv: "LRU_inv E l" and a: "Add E l k v = Inr l'"
    and n: "\<forall>s \<in> set (the_shards l). int (length (lst s)) + 1 < 2 ^ 31"
  shows "LRU_inv E l'"
proof -
  obtain i where r: "LRU_shard E l k = Inr i"
    using a by (cases "LRU_shard E l k")
      (simp_all add: Add_def lazyInit_initialised [OF LRU_inv_shards [OF inv]])
  have i: "i < length (the_shards l)" by (rule LRU_shard_bound [OF r])
  obtain s' where s': "add E (the_shards l ! i) k v = Inr s'" and l': "l' = set_shard l i s'"
    using a by (cases "add E (the_shards l ! i) k v") (auto simp: Add_routed [OF LRU_inv_wf [OF inv] r])
  have ni: "int (length (lst (the_shards l ! i))) + 1 < 2 ^ 31"
    using n i by simp
  show ?thesis
    unfolding l'
  proof (rule LRU_inv_set_shard [OF inv i add_inv(1) [OF LRU_inv_shard [OF inv i] s' ni]])
    fix k0 a0 assume "idx s' k0 = Some a0"
    then show "LRU_shard E l k0 = Inr i"
      using add_inv(2) [OF LRU_inv_shard [OF inv i] s' ni, of k0 a0] r LRU_inv_route [OF inv i, of k0]
      by auto
  qed
qed

lemma get_inv:
  assumes inv: "shard_inv E s" and g: "get E s k = Inr (r, s')"
  shows "shard_inv E s'" and "idx s' = idx s"
proof -
  have "shard_inv E s' \<and> idx s' = idx s"
  proof (cases "idx s k")
    case None
    then show ?thesis using g inv by (auto simp: get_def split: if_splits)
  next
    case (Some a)
    then show ?thesis
      using get_present [OF inv Some] g touch_inv [OF inv Some] by auto
  qed
  then show "shard_inv E s'" and "idx s' = idx s" by simp_all
qed

lemma removeKey_inv:
  assumes inv: "shard_inv E s" and g: "removeKey E s k = Inr s'"
  shows "shard_inv E s'" and "\<And>k0 a0. idx s' k0 = Some a0 \<Longrightarrow> idx s k0 = Some a0"
proof -
  have "shard_inv E s' \<and> (\<forall>k0 a0. idx s' k0 = Some a0 \<longrightarrow> idx s k0 = Some a0)"
  proof (cases "idx s k")
    case None
    then show ?thesis using g inv by (auto simp: removeKey_def split: if_splits)
  next
    case (Some a)
    then show ?thesis
      using removeKey_present [OF inv Some] g unlink_inv [OF inv Some refl]
      by (auto split: if_splits)
  qed
  then show "shard_inv E s'" and "\<And>k0 a0. idx s' k0 = Some a0 \<Longrightarrow> idx s k0 = Some a0"
    by blast+
qed

lemma Get_inv:
  assumes inv: "LRU_inv E l" and g: "Get E l k = Inr (r, l')"
  shows "LRU_inv E l'"
proof -
  obtain i where r: "LRU_shard E l k = Inr i"
    using g by (cases "LRU_shard E l k") (simp_all add: Get_def)
  have i: "i < length (the_shards l)" by (rule LRU_shard_bound [OF r])
  obtain s' where s': "get E (the_shards l ! i) k = Inr (r, s')" and l': "l' = set_shard l i s'"
    using g by (cases "get E (the_shards l ! i) k") (auto simp: Get_routed [OF r])
  show ?thesis
    unfolding l'
  proof (rule LRU_inv_set_shard [OF inv i get_inv(1) [OF LRU_inv_shard [OF inv i] s']])
    fix k0 a0 assume "idx s' k0 = Some a0"
    then show "LRU_shard E l k0 = Inr i"
      using get_inv(2) [OF LRU_inv_shard [OF inv i] s'] LRU_inv_route [OF inv i, of k0 a0] by simp
  qed
qed

lemma Remove_inv:
  assumes inv: "LRU_inv E l" and g: "Remove E l k = Inr l'"
  shows "LRU_inv E l'"
proof -
  obtain i where r: "LRU_shard E l k = Inr i"
    using g by (cases "LRU_shard E l k") (simp_all add: Remove_def)
  have i: "i < length (the_shards l)" by (rule LRU_shard_bound [OF r])
  obtain s' where s': "removeKey E (the_shards l ! i) k = Inr s'" and l': "l' = set_shard l i s'"
    using g by (cases "removeKey E (the_shards l ! i) k") (auto simp: Remove_routed [OF r])
  show ?thesis
    unfolding l'
  proof (rule LRU_inv_set_shard [OF inv i removeKey_inv(1) [OF LRU_inv_shard [OF inv i] s']])
    fix k0 a0 assume "idx s' k0 = Some a0"
    then show "LRU_shard E l k0 = Inr i"
      using removeKey_inv(2) [OF LRU_inv_shard [OF inv i] s'] LRU_inv_route [OF inv i, of k0 a0]
      by simp
  qed
qed

text \<open>
  So every cache built under one environment is well formed and holds every key where
  it is routed.
\<close>

lemma built_inv: "built E l \<Longrightarrow> LRU_inv E l"
  by (induction rule: built.induct) (auto intro: New_inv Add_inv Get_inv Remove_inv)

lemma built_wf_routed: "built E l \<Longrightarrow> well_formed E l \<and> routed E l k"
  using built_inv [of E l] LRU_inv_wf [of E l] LRU_inv_routed [of E l k] by blast









lemma built_reached: "built E l \<Longrightarrow> reached E l"
  by (induction rule: built.induct) (auto intro: reached.intros)

section \<open>The zero value\<close>

lemma lazyInit_zero: "lazyInit (zero_LRU :: ('u, 'v) LRU) = New []"
  by (simp add: lazyInit_def zero_LRU_def New_def Let_def newShard_def upt_rec signed_divide_int_def)

lemma lazyInit_New: "lazyInit (New opts :: ('u, 'v) LRU) = New opts"
  by (rule lazyInit_initialised) (simp add: New_eq)

text \<open>
  Claim C2 fails on the code.  \<open>Get\<close> and \<open>Remove\<close> do not call \<open>lazyInit\<close>: on the zero value
  the router indexes the nil slice \<open>shards\<close> and panics, where on \<open>New()\<close> both return
  normally.  \<open>Add\<close>, \<open>Len\<close>, \<open>PeekFront\<close> and \<open>Traverse\<close> do on the zero value what they do on
  \<open>New()\<close>.
\<close>

theorem Get_Remove_zero_value_panic:
  "Get E (zero_LRU :: ('u, 'v) LRU) (Str ''a'') = Inl IndexOutOfRange
   \<and> Remove E (zero_LRU :: ('u, 'v) LRU) (Str ''a'') = Inl IndexOutOfRange
   \<and> Get E (New [] :: ('u, 'v) LRU) (Str ''a'') = Inr ((None, False), New [])
   \<and> Remove E (New [] :: ('u, 'v) LRU) (Str ''a'') = Inr (New [])
   \<and> Add E (zero_LRU :: ('u, 'v) LRU) k v = Add E (New []) k v
   \<and> Len (zero_LRU :: ('u, 'v) LRU) = Len (New [])
   \<and> PeekFront E (zero_LRU :: ('u, 'v) LRU) = PeekFront E (New [])
   \<and> Traverse (zero_LRU :: ('u, 'v) LRU) fn st = Traverse (New [] :: ('u, 'v) LRU) fn st"
proof -
  have "Traverse (zero_LRU :: ('u, 'v) LRU) fn st = Traverse (New [] :: ('u, 'v) LRU) fn st"
    by (simp add: Traverse_def zero_LRU_def the_shards_def New_def Let_def newShard_def upt_rec)
  moreover have "Get E (zero_LRU :: ('u, 'v) LRU) (Str ''a'') = Inl IndexOutOfRange
   \<and> Remove E (zero_LRU :: ('u, 'v) LRU) (Str ''a'') = Inl IndexOutOfRange
   \<and> Get E (New [] :: ('u, 'v) LRU) (Str ''a'') = Inr ((None, False), New [])
   \<and> Remove E (New [] :: ('u, 'v) LRU) (Str ''a'') = Inr (New [])"
    by (simp add: Get_def Remove_def LRU_shard_def zero_LRU_def the_shards_def New_def Let_def
      get_def removeKey_def newShard_def set_shard_def upt_rec)
  ultimately show ?thesis
    by (simp add: Add_def Len_def PeekFront_def lazyInit_zero lazyInit_New)
qed

lemma zero_value_any_key:
  "Get E (zero_LRU :: ('u, 'v) LRU) k = (case key_bytes E k of Inl p \<Rightarrow> Inl p | Inr bs \<Rightarrow> Inl IndexOutOfRange)"
  "Remove E (zero_LRU :: ('u, 'v) LRU) k = (case key_bytes E k of Inl p \<Rightarrow> Inl p | Inr bs \<Rightarrow> Inl IndexOutOfRange)"
  by (simp_all add: Get_def Remove_def LRU_shard_def zero_LRU_def the_shards_def split: sum.splits)

section \<open>Traversal\<close>

lemma two_shards_ab_built:
  "(case Add plain_env (New [withShards 2]) (Str ''a'') 1 of
      Inl p \<Rightarrow> Inl p
    | Inr l \<Rightarrow> Add plain_env l (Str ''b'') 2) = Inr two_shards_ab"
  by (simp add: Add_def New_def Let_def lazyInit_def LRU_shard_def the_shards_def fnv32a_def
      add_def plain_env_def newShard_def set_shard_def shard_Len_def two_shards_ab_def upt_rec
      signed_divide_int_def)

text \<open>
  The inner loop is never left for the next shard, so a traversal is the traversal of
  the first shard.
\<close>

lemma Traverse_elems_exit:
  "Traverse_elems fn es xs st = Inr (x, st') \<Longrightarrow> x = BreakL"
  by (induction xs arbitrary: st) (auto split: option.splits prod.splits if_splits)

lemma Traverse_only_first_shard:
  "Traverse_shards reverse fn (s # ss) st = Traverse_shards reverse fn [s] st"
  using Traverse_elems_exit [of fn "elems s" "if reverse then rev (lst s) else lst s" st]
  by (auto split: sum.splits prod.splits loop_exit.splits)

text \<open>
  Claim C1 fails on the code.  The inner loop leaves through \<open>break L\<close> also when it
  reaches the end of a shard's list, so the traversal ends with the first shard: with
  \<open>"a"\<close> in shard 0 and \<open>"b"\<close> in shard 1 and a visit function that always returns true,
  only \<open>"a"\<close> is visited, although \<open>Len\<close> is 2 and \<open>Get("b")\<close> finds its entry.
\<close>

theorem Traverse_stops_after_first_shard:
  "Traverse two_shards_ab record_all [] = Inr [(Str ''a'', 1)]
   \<and> TraverseReverse two_shards_ab record_all [] = Inr [(Str ''a'', 1)]
   \<and> Len two_shards_ab = Inr (2, two_shards_ab)
   \<and> Get plain_env two_shards_ab (Str ''b'') = Inr ((Some 2, True), two_shards_ab)"
  by (simp add: Traverse_def TraverseReverse_def the_shards_def two_shards_ab_def record_all_def
      Len_def Len_loop.simps lazyInit_def shard_Len_def Get_def LRU_shard_def fnv32a_def get_def
      plain_env_def MoveToFront_def set_shard_def)

section \<open>Concrete caches\<close>

lemma route_a: "LRU_shard plain_env two_shards_ab (Str ''a'') = Inr 0"
  and route_b: "LRU_shard plain_env two_shards_ab (Str ''b'') = Inr (Suc 0)"
  and route_c: "LRU_shard plain_env two_shards_ab (Str ''c'') = Inr 0"
  by (simp_all add: LRU_shard_def two_shards_ab_def the_shards_def fnv32a_def)

lemma two_shards_ab_inv: "LRU_inv plain_env two_shards_ab"
proof -
  have s0: "shard_inv plain_env (the_shards two_shards_ab ! 0)"
    by (auto simp: shard_inv_def two_shards_ab_def the_shards_def split: if_splits)
  have s1: "shard_inv plain_env (the_shards two_shards_ab ! Suc 0)"
    by (auto simp: shard_inv_def two_shards_ab_def the_shards_def split: if_splits)
  have r0: "LRU_shard plain_env two_shards_ab k = Inr 0"
    if "idx (the_shards two_shards_ab ! 0) k = Some a" for k a
    using that route_a by (auto simp: two_shards_ab_def the_shards_def split: if_splits)
  have r1: "LRU_shard plain_env two_shards_ab k = Inr (Suc 0)"
    if "idx (the_shards two_shards_ab ! Suc 0) k = Some a" for k a
    using that route_b by (auto simp: two_shards_ab_def the_shards_def split: if_splits)
  have len: "length (the_shards two_shards_ab) = Suc (Suc 0)"
    by (simp add: two_shards_ab_def the_shards_def)
  show ?thesis
    unfolding LRU_inv_def len
    using s0 s1 r0 r1 len by (auto simp: less_Suc_eq) (simp_all add: two_shards_ab_def)
qed

lemma intBytes_1: "intBytes 1 = [1, 0, 0, 0, 0, 0, 0, 0]"
  and intBytes_2: "intBytes 2 = [2, 0, 0, 0, 0, 0, 0, 0]"
  by code_simp+

lemma one_shard_abc_built:
  "(case Add plain_env (New [withCapacity 3]) (Str ''a'') 1 of
      Inl p \<Rightarrow> Inl p
    | Inr l \<Rightarrow>
       (case Add plain_env l (Str ''b'') 2 of
          Inl p \<Rightarrow> Inl p
        | Inr l \<Rightarrow> Add plain_env l (Str ''c'') 3)) = Inr one_shard_abc"
  by (simp add: Add_def New_def Let_def lazyInit_def LRU_shard_def the_shards_def
      add_def plain_env_def newShard_def set_shard_def shard_Len_def one_shard_abc_def upt_rec
      signed_divide_int_def numeral_2_eq_2)
















lemma present_ab: "present two_shards_ab (Str ''a'')" "present two_shards_ab (Str ''b'')"
  "\<not> present two_shards_ab (Str ''c'')"
  by (simp_all add: present_def two_shards_ab_def the_shards_def)

section \<open>Adding, getting and removing\<close>

text \<open>
  The theorems of this section are about a well-formed cache and a key that is held
  where it is routed.  Every cache built by \<open>New\<close> and changed by \<open>Add\<close>, \<open>Get\<close> and \<open>Remove\<close>
  under one environment is such a cache, for every key (\<open>built_wf_routed\<close>).  A cache in which a
  pointer key was stored and what it points to was changed afterwards is not.
\<close>













section \<open>What the router guarantees\<close>

lemma same_view_key_bytes: "same_view E E' k \<Longrightarrow> key_bytes E' k = key_bytes E k"
  by (cases k) (auto split: option.splits)

lemma op_step_shape:
  assumes "op_step l l'" and "shards l \<noteq> None"
  shows "nshards l' = nshards l \<and> length (the_shards l') = length (the_shards l) \<and> shards l' \<noteq> None"
  using assms
proof (cases rule: op_step.cases)
  case (step_Add E k v)
  then obtain i s' where "l' = set_shard l i s'"
    using assms(2) by (auto simp: Add_def lazyInit_initialised split: sum.splits)
  then show ?thesis by simp
next
  case (step_Get E k r)
  then obtain i s' where "l' = set_shard l i s'"
    by (auto simp: Get_def split: sum.splits prod.splits)
  then show ?thesis by simp
next
  case (step_Remove E k)
  then obtain i s' where "l' = set_shard l i s'"
    by (auto simp: Remove_def split: sum.splits)
  then show ?thesis by simp
next
  case (step_PeekFront E kv)
  then have "l' = l"
    using assms(2) by (auto simp: PeekFront_def lazyInit_initialised split: sum.splits)
  then show ?thesis using assms(2) by simp
next
  case (step_Len n)
  then have "l' = l"
    using assms(2) by (auto simp: Len_def lazyInit_initialised split: sum.splits)
  then show ?thesis using assms(2) by simp
qed

lemma op_steps_shape:
  assumes "op_step\<^sup>*\<^sup>* l l'" and "shards l \<noteq> None"
  shows "nshards l' = nshards l \<and> length (the_shards l') = length (the_shards l) \<and> shards l' \<noteq> None"
  using assms
proof (induction rule: rtranclp_induct)
  case base
  then show ?case by simp
next
  case (step y z)
  then show ?case using op_step_shape [of y z] by simp
qed

lemma two_shards_ab_reached: "op_step\<^sup>*\<^sup>* (New [withShards 2]) two_shards_ab"
proof -
  obtain l1 where 1: "Add plain_env (New [withShards 2]) (Str ''a'') 1 = Inr l1"
    and 2: "Add plain_env l1 (Str ''b'') 2 = Inr two_shards_ab"
    using two_shards_ab_built
    by (cases "Add (plain_env :: unit env) (New [withShards 2] :: (unit, nat) LRU) (Str ''a'') 1") auto
  have "op_step (New [withShards 2]) l1" "op_step l1 two_shards_ab"
    using 1 2 by (auto intro: op_step.intros)
  then show ?thesis by auto
qed

text \<open>
  Claim C10.  On a cache built by \<open>New\<close>, and on every cache reached from it by the public
  operations, for every key whose encoding succeeds the router returns the index
  \<open>hash & (nshards - 1)\<close>, and this index is below the shard count: a shard that exists.
  Nothing is assumed of the shard count being a power of two.
\<close>

theorem shard_index_in_range:
  assumes "op_step\<^sup>*\<^sup>* (New opts) l" and "key_bytes E k = Inr bs"
  shows "\<exists>i. LRU_shard E l k = Inr i \<and> int i < nshards l \<and> i < length (the_shards l)
           \<and> i = unat (fnv32a bs AND word_of_int (nshards l - 1))"
proof -
  have "shards (New opts :: ('a, 'b) LRU) \<noteq> None" by (simp add: New_eq)
  from op_steps_shape [OF assms(1) this]
  have n: "nshards l = nshards (New opts :: ('a, 'b) LRU)"
    and len: "length (the_shards l) = length (the_shards (New opts :: ('a, 'b) LRU))"
    by simp_all
  let ?i = "unat (fnv32a bs AND word_of_int (nshards l - 1))"
  have "1 \<le> nshards l" using New_nshards [of opts, where ?'u = 'a and ?'v = 'b] n by simp
  then have "int ?i < nshards l" by (rule mask_index_bound)
  moreover from this have "?i < length (the_shards l)"
    using New_length [of opts, where ?'u = 'a and ?'v = 'b] n len by linarith
  ultimately show ?thesis
    using assms(2) by (simp add: LRU_shard_def)
qed

theorem shard_index_in_range_witness:
  "key_bytes (plain_env :: unit env) (Str ''b'') = Inr [98]
   \<and> op_step\<^sup>*\<^sup>* (New [withShards 2]) two_shards_ab
   \<and> LRU_shard plain_env two_shards_ab (Str ''b'') = Inr 1
   \<and> nshards two_shards_ab = 2
   \<and> LRU_shard (plain_env :: unit env) (New [withShards 3] :: (unit, unit) LRU) (Str ''b'') = Inr 0
   \<and> nshards (New [withShards 3] :: (unit, unit) LRU) = 3"
proof -
  have h: "key_bytes (plain_env :: unit env) (Str ''b'') = Inr [98]"
    by simp
  have r: "op_step\<^sup>*\<^sup>* (New [withShards 3] :: (unit, unit) LRU) (New [withShards 3])"
    by simp
  show ?thesis
    using h two_shards_ab_reached shard_index_in_range [OF two_shards_ab_reached h]
      shard_index_in_range [OF r h]
    by (simp add: New_eq configured_def fnv32a_def two_shards_ab_def)
qed

text \<open>
  When the shard count is not a power of two some shards are never selected: with three
  shards the mask is 2, and no key is routed to shard 1.
\<close>

lemma three_shards_middle_unreachable:
  "LRU_shard E (New [withShards 3] :: ('u, 'v) LRU) k \<noteq> Inr 1"
proof -
  have "unat (h AND 2) \<noteq> Suc 0" for h :: "32 word"
  proof
    assume "unat (h AND 2) = Suc 0"
    then have "h AND 2 = 1" by (metis unat_1 word_unat_eq_iff One_nat_def)
    then have "(h AND 2) AND 1 = 1" by simp
    moreover have "(h AND 2) AND 1 = h AND (2 AND 1)" by (simp only: and.assoc)
    ultimately show False by simp
  qed
  then show ?thesis
    by (auto simp: LRU_shard_def New_eq configured_def the_shards_def Let_def
        split: sum.splits if_splits)
qed

text \<open>
  Claim C4.  A key of a user type without \<open>Bytes()\<close> and \<open>String()\<close> whose gob encoding
  fails makes the router panic, and with it \<open>Add\<close>, \<open>Get\<close> and \<open>Remove\<close>, on every cache:
  the caller gets the failure, no shard is selected from an empty encoding, and no
  state is returned.
\<close>

theorem gob_failure_panics:
  assumes "Bytes_method E u = None" and "String_method E u = None" and "gob_Encode E u = None"
  shows "key_bytes E (User u) = Inl GobEncodePanic
         \<and> LRU_shard E l (User u) = Inl GobEncodePanic
         \<and> Add E l (User u) v = Inl GobEncodePanic
         \<and> Get E l (User u) = Inl GobEncodePanic
         \<and> Remove E l (User u) = Inl GobEncodePanic"
proof -
  have kb: "key_bytes E (User u) = Inl GobEncodePanic"
    using assms by simp
  then have "LRU_shard E l' (User u) = Inl GobEncodePanic" for l' :: "('a, 'b) LRU"
    by (simp add: LRU_shard_def)
  then show ?thesis
    using kb by (simp add: Add_def Get_def Remove_def Let_def)
qed

theorem gob_failure_panics_witness:
  "Bytes_method (plain_env :: unit env) () = None \<and> String_method (plain_env :: unit env) () = None
   \<and> gob_Encode (plain_env :: unit env) () = None
   \<and> Add plain_env (New [withShards 4] :: (unit, nat) LRU) (User ()) 1 = Inl GobEncodePanic
   \<and> Get plain_env (New [withShards 4] :: (unit, nat) LRU) (User ()) = Inl GobEncodePanic
   \<and> Remove plain_env (New [withShards 4] :: (unit, nat) LRU) (User ()) = Inl GobEncodePanic"
proof -
  have h: "Bytes_method (plain_env :: unit env) () = None" "String_method (plain_env :: unit env) () = None"
    "gob_Encode (plain_env :: unit env) () = None"
    by (simp_all add: plain_env_def)
  show ?thesis
    using h gob_failure_panics [OF h, of "New [withShards 4] :: (unit, nat) LRU" 1] by simp
qed

text \<open>
  Claim C9, as the code has it.  The shard a key is routed to depends on the bytes the key
  is encoded to and on the shard count only.  So two calls of the router on the same
  key give the same result in any two states of a cache that one is reached from the
  other by public operations, and under any two environments that give the same view
  of the key: what a pointer key points to is the same at both calls, and for a key of
  a user type its \<open>Bytes\<close> and \<open>String\<close> methods and the gob encoder return the same at both
  calls.  For every other key nothing is required.
\<close>

theorem router_deterministic:
  assumes "shards l \<noteq> None" and "op_step\<^sup>*\<^sup>* l l'" and "same_view E E' k"
  shows "LRU_shard E' l' k = LRU_shard E l k"
proof (rule LRU_shard_depends)
  show "key_bytes E' k = key_bytes E k"
    by (rule same_view_key_bytes) (fact assms(3))
  show "nshards l' = nshards l" "length (the_shards l') = length (the_shards l)"
    using op_steps_shape [OF assms(2,1)] by simp_all
qed

theorem router_deterministic_witness:
  "shards (New [withShards 2] :: (unit, nat) LRU) \<noteq> None
   \<and> op_step\<^sup>*\<^sup>* (New [withShards 2]) two_shards_ab
   \<and> same_view ((plain_env :: unit env)\<lparr>int_at := [0 \<mapsto> 1]\<rparr>)
        ((plain_env :: unit env)\<lparr>int_at := [0 \<mapsto> 1, 1 \<mapsto> 5]\<rparr>) (IntPtr 0)
   \<and> LRU_shard ((plain_env :: unit env)\<lparr>int_at := [0 \<mapsto> 1, 1 \<mapsto> 5]\<rparr>) two_shards_ab (IntPtr 0) = Inr 0
   \<and> LRU_shard ((plain_env :: unit env)\<lparr>int_at := [0 \<mapsto> 1]\<rparr>) (New [withShards 2] :: (unit, nat) LRU) (IntPtr 0) = Inr 0
   \<and> same_view ((plain_env :: unit env)\<lparr>int_at := [0 \<mapsto> 1]\<rparr>)
        ((plain_env :: unit env)\<lparr>int_at := [0 \<mapsto> 2]\<rparr>) (Str ''b'')
   \<and> LRU_shard ((plain_env :: unit env)\<lparr>int_at := [0 \<mapsto> 2]\<rparr>) two_shards_ab (Str ''b'')
       = LRU_shard ((plain_env :: unit env)\<lparr>int_at := [0 \<mapsto> 1]\<rparr>) (New [withShards 2] :: (unit, nat) LRU) (Str ''b'')"
proof -
  have sh: "shards (New [withShards 2] :: (unit, nat) LRU) \<noteq> None"
    by (simp add: New_eq)
  have v: "same_view ((plain_env :: unit env)\<lparr>int_at := [0 \<mapsto> 1]\<rparr>)
        ((plain_env :: unit env)\<lparr>int_at := [0 \<mapsto> 1, 1 \<mapsto> 5]\<rparr>) (IntPtr 0)"
    "same_view ((plain_env :: unit env)\<lparr>int_at := [0 \<mapsto> 1]\<rparr>)
        ((plain_env :: unit env)\<lparr>int_at := [0 \<mapsto> 2]\<rparr>) (Str ''b'')"
    by simp_all
  have r: "LRU_shard ((plain_env :: unit env)\<lparr>int_at := [0 \<mapsto> 1]\<rparr>) (New [withShards 2] :: (unit, nat) LRU) (IntPtr 0) = Inr 0"
    by (simp add: LRU_shard_def New_eq configured_def the_shards_def plain_env_def intBytes_1
        fnv32a_def)
  show ?thesis
    using sh two_shards_ab_reached v r
      router_deterministic [OF sh two_shards_ab_reached v(1)]
      router_deterministic [OF sh two_shards_ab_reached v(2)]
    by simp
qed

text \<open>
  Claim C9 as stated fails for a pointer key: the router hashes what an \<open>*int\<close> points
  to, not the pointer.  With two shards, the same pointer is routed to shard 0 while it
  points to 1 and to shard 1 once it points to 2.  It fails as well for a key whose
  \<open>String\<close> method returns \<open>"a"\<close> at one call and \<open>"b"\<close> at the next.
\<close>

theorem pointer_key_routing_counterexample:
  "LRU_shard ((plain_env :: unit env)\<lparr>int_at := [0 \<mapsto> 1]\<rparr>) (New [withShards 2] :: (unit, unit) LRU) (IntPtr 0) = Inr 0
   \<and> LRU_shard ((plain_env :: unit env)\<lparr>int_at := [0 \<mapsto> 2]\<rparr>) (New [withShards 2] :: (unit, unit) LRU) (IntPtr 0) = Inr 1
   \<and> LRU_shard ((plain_env :: unit env)\<lparr>String_method := [() \<mapsto> ''a'']\<rparr>) (New [withShards 2] :: (unit, unit) LRU) (User ()) = Inr 0
   \<and> LRU_shard ((plain_env :: unit env)\<lparr>String_method := [() \<mapsto> ''b'']\<rparr>) (New [withShards 2] :: (unit, unit) LRU) (User ()) = Inr 1"
  by (simp add: LRU_shard_def New_eq configured_def the_shards_def plain_env_def intBytes_1
      intBytes_2 fnv32a_def)

end
